theory Spec2Isabelle
  imports Complex_Main
begin

section \<open>Strings\<close>

text \<open>
  JavaScript strings are modelled as \<^typ>\<open>string\<close>: a list of code units, here the
  units \<open>0..255\<close>. The zero-width space (U+200B) that the source lists in the
  \<open>remove\<close> pattern of \<open>sanitizeFilename\<close> lies outside that range and cannot occur
  in a modelled string. Characters are classified through their codes.
\<close>

definition isUpper :: "char \<Rightarrow> bool" where
  "isUpper c = (65 \<le> (of_char c :: nat) \<and> (of_char c :: nat) \<le> 90)"

definition isLower :: "char \<Rightarrow> bool" where
  "isLower c = (97 \<le> (of_char c :: nat) \<and> (of_char c :: nat) \<le> 122)"

definition isDigit :: "char \<Rightarrow> bool" where
  "isDigit c = (48 \<le> (of_char c :: nat) \<and> (of_char c :: nat) \<le> 57)"

text \<open>The regular-expression class \<open>[A-Za-z0-9]\<close>.\<close>

definition isAlnum :: "char \<Rightarrow> bool" where
  "isAlnum c = (isUpper c \<or> isLower c \<or> isDigit c)"

text \<open>
  The class \<open>\s\<close>, which is also what \<open>String.prototype.trim\<close> strips: tab, line feed,
  vertical tab, form feed, carriage return, space and the no-break space.
\<close>

definition isSpace :: "char \<Rightarrow> bool" where
  "isSpace c = ((of_char c :: nat) \<in> {9, 10, 11, 12, 13, 32, 160})"

text \<open>
  \<open>toLowerCase\<close> on one code unit: the ASCII capitals, and the Latin-1 capitals
  \<open>0xC0..0xDE\<close> except the multiplication sign \<open>0xD7\<close>, move up by 32.
\<close>

definition toLowerChar :: "char \<Rightarrow> char" where
  "toLowerChar c =
     (let n = (of_char c :: nat) in
      if isUpper c \<or> (192 \<le> n \<and> n \<le> 222 \<and> n \<noteq> 215) then char_of (n + 32) else c)"

definition toLowerCase :: "string \<Rightarrow> string" where
  "toLowerCase s = map toLowerChar s"

definition trim :: "string \<Rightarrow> string" where
  "trim s = rev (dropWhile isSpace (rev (dropWhile isSpace s)))"

text \<open>\<open>s.endsWith(suffix)\<close> and \<open>s.startsWith(prefix)\<close>.\<close>

definition endsWith :: "string \<Rightarrow> string \<Rightarrow> bool" where
  "endsWith s suffix = (length suffix \<le> length s \<and> drop (length s - length suffix) s = suffix)"

definition startsWith :: "string \<Rightarrow> string \<Rightarrow> bool" where
  "startsWith s prefix = (take (length prefix) s = prefix)"

text \<open>\<open>s.split(d)\<close> for a one-character separator: never the empty array.\<close>

fun splitOn :: "char \<Rightarrow> string \<Rightarrow> string list" where
  "splitOn d [] = [[]]"
| "splitOn d (c # cs) =
     (if c = d then [] # splitOn d cs
      else (case splitOn d cs of
              [] \<Rightarrow> [[c]]
            | w # ws \<Rightarrow> (c # w) # ws))"

text \<open>\<open>parts.join(sep)\<close>.\<close>

fun joinWith :: "string \<Rightarrow> string list \<Rightarrow> string" where
  "joinWith sep [] = []"
| "joinWith sep [x] = x"
| "joinWith sep (x # y # ys) = x @ sep @ joinWith sep (y # ys)"

text \<open>\<open>s.replace(/\s+/g, r)\<close>: every maximal run of white space becomes \<open>r\<close>.\<close>

function replaceSpaces :: "string \<Rightarrow> string \<Rightarrow> string" where
  "replaceSpaces r [] = []"
| "replaceSpaces r (c # cs) =
     (if isSpace c then r @ replaceSpaces r (dropWhile isSpace cs)
      else c # replaceSpaces r cs)"
  by pat_completeness auto
termination
  by (relation "measure (\<lambda>(r, s). length s)") (auto simp: length_dropWhile_le less_Suc_eq_le)

section \<open>The slugify transform\<close>

text \<open>
  Modelled from the spec: the \<open>slugify\<close> package that \<open>sanitizeFilename\<close> calls is
  a dependency whose code is not among the sources. The spec describes it as a transform
  that lower-cases, strips diacritics and punctuation and replaces white space with
  hyphens, and \<open>sanitizeSegment\<close> as one that "lower-cases, strips a fixed punctuation
  set, collapses to hyphen-separated ASCII-safe tokens". The definitions below follow the
  package's algorithm for the options the source passes: each character is replaced
  through the character map (a hyphen, being the replacement string, becomes a space),
  the characters of the \<open>remove\<close> pattern are dropped from each replacement, \<open>strict\<close>
  keeps only \<open>[A-Za-z0-9\s]\<close>, the result is trimmed, every run of white space becomes
  one hyphen, and \<open>lower\<close> lower-cases. The character map's entries for ASCII characters
  are listed; its entries for the other characters (diacritics, currency signs) are the
  parameter \<open>ext\<close>, about which nothing is assumed.
\<close>

definition charMapAscii :: "char \<Rightarrow> string option" where
  "charMapAscii c =
     (if c = CHR ''$'' then Some ''dollar''
      else if c = CHR ''%'' then Some ''percent''
      else if c = CHR ''&'' then Some ''and''
      else if c = CHR ''<'' then Some ''less''
      else if c = CHR ''>'' then Some ''greater''
      else if c = CHR ''|'' then Some ''or''
      else None)"

definition charMap :: "(char \<Rightarrow> string option) \<Rightarrow> char \<Rightarrow> string option" where
  "charMap ext c = (if (of_char c :: nat) < 128 then charMapAscii c else ext c)"

definition slugifyChar :: "(char \<Rightarrow> string option) \<Rightarrow> (char \<Rightarrow> bool) \<Rightarrow> char \<Rightarrow> string" where
  "slugifyChar ext removed c =
     (let appendChar = (case charMap ext c of Some s \<Rightarrow> s | None \<Rightarrow> [c]);
          appendChar = (if appendChar = ''-'' then '' '' else appendChar)
      in filter (\<lambda>x. \<not> removed x) appendChar)"

definition slugify :: "(char \<Rightarrow> string option) \<Rightarrow> (char \<Rightarrow> bool) \<Rightarrow> bool \<Rightarrow> bool \<Rightarrow> string \<Rightarrow> string" where
  "slugify ext removed strict lower s =
     (let slug = concat (map (slugifyChar ext removed) s);
          slug = (if strict then filter (\<lambda>c. isAlnum c \<or> isSpace c) slug else slug);
          slug = trim slug;
          slug = replaceSpaces ''-'' slug
      in if lower then toLowerCase slug else slug)"

section \<open>The path library\<close>

text \<open>
  The source imports \<open>join\<close>, \<open>dirname\<close>, \<open>basename\<close> and \<open>relative\<close> from the
  \<open>pathe\<close> package, which is a dependency and not among the sources. They are modelled
  as that package documents them: POSIX path functions on slash-separated strings that
  first turn every backslash into a slash and put a leading drive letter in upper case.
  The branches for UNC paths and bare drive letters in \<open>normalize\<close> are left out: no
  path built by the generator starts with two slashes or holds a colon.
\<close>

definition backslash :: char where
  "backslash = CHR 0x5C"

definition toUpperChar :: "char \<Rightarrow> char" where
  "toUpperChar c = (if isLower c then char_of ((of_char c :: nat) - 32) else c)"

definition normalizeWindowsPath :: "string \<Rightarrow> string" where
  "normalizeWindowsPath input =
     (let p = map (\<lambda>c. if c = backslash then CHR ''/'' else c) input in
      if 3 \<le> length p \<and> (isUpper (p ! 0) \<or> isLower (p ! 0)) \<and> p ! 1 = CHR '':'' \<and> p ! 2 = CHR ''/''
      then toUpperChar (p ! 0) # drop 1 p
      else p)"

definition isSep :: "char \<Rightarrow> bool" where
  "isSep c = (c = CHR ''/'' \<or> c = backslash)"

text \<open>The pattern \<open>^[/\\](?![/\\])|^[/\\]{2}(?!\.)|^[A-Za-z]:[/\\]\<close>.\<close>

definition isAbsolute :: "string \<Rightarrow> bool" where
  "isAbsolute p =
     ((1 \<le> length p \<and> isSep (p ! 0) \<and> (length p = 1 \<or> \<not> isSep (p ! 1)))
      \<or> (2 \<le> length p \<and> isSep (p ! 0) \<and> isSep (p ! 1) \<and> (length p = 2 \<or> p ! 2 \<noteq> CHR ''.''))
      \<or> (3 \<le> length p \<and> (isUpper (p ! 0) \<or> isLower (p ! 0)) \<and> p ! 1 = CHR '':'' \<and> isSep (p ! 2)))"

text \<open>
  \<open>normalizeString\<close> walks the segments of a path: an empty segment and \<open>.\<close> are
  skipped; \<open>..\<close> removes the last segment kept so far, unless there is none or it is
  itself \<open>..\<close>, in which case \<open>..\<close> is kept when the path may climb above its root;
  every other segment is kept.
\<close>

fun normSegs :: "bool \<Rightarrow> string list \<Rightarrow> string list \<Rightarrow> string list" where
  "normSegs allowAboveRoot res [] = res"
| "normSegs allowAboveRoot res (seg # segs) =
     (if seg = [] \<or> seg = ''.'' then normSegs allowAboveRoot res segs
      else if seg = ''..'' then
        (if res \<noteq> [] \<and> last res \<noteq> ''..'' then normSegs allowAboveRoot (butlast res) segs
         else if allowAboveRoot then normSegs allowAboveRoot (res @ [''..'']) segs
         else normSegs allowAboveRoot res segs)
      else normSegs allowAboveRoot (res @ [seg]) segs)"

definition normalizeString :: "string \<Rightarrow> bool \<Rightarrow> string" where
  "normalizeString path allowAboveRoot =
     joinWith ''/'' (normSegs allowAboveRoot [] (splitOn CHR ''/'' path))"

definition normalize :: "string \<Rightarrow> string" where
  "normalize path0 =
     (if path0 = [] then ''.''
      else
        let path = normalizeWindowsPath path0;
            isPathAbsolute = isAbsolute path;
            trailingSeparator = (last path = CHR ''/'');
            res = normalizeString path (\<not> isPathAbsolute)
        in if res = [] then
             (if isPathAbsolute then ''/'' else if trailingSeparator then ''./'' else ''.'')
           else
             let res = (if trailingSeparator then res @ ''/'' else res)
             in if isPathAbsolute \<and> \<not> isAbsolute res then CHR ''/'' # res else res)"

text \<open>\<open>join\<close>: the non-empty arguments, glued with exactly one slash, then normalised.\<close>

fun joinLoop :: "string \<Rightarrow> string list \<Rightarrow> string" where
  "joinLoop path [] = path"
| "joinLoop path (seg # segments) =
     (if seg = [] then joinLoop path segments
      else if path \<noteq> [] then
        (let pathTrailing = (last path = CHR ''/'');
             segLeading = (hd seg = CHR ''/'')
         in if pathTrailing \<and> segLeading then joinLoop (path @ tl seg) segments
            else joinLoop (path @ (if pathTrailing \<or> segLeading then seg else CHR ''/'' # seg)) segments)
      else joinLoop (path @ seg) segments)"

definition join :: "string list \<Rightarrow> string" where
  "join segments = normalize (joinLoop [] segments)"

definition dirname :: "string \<Rightarrow> string" where
  "dirname p =
     (let q = normalizeWindowsPath p;
          q = (if q \<noteq> [] \<and> last q = CHR ''/'' then butlast q else q);
          segments = butlast (splitOn CHR ''/'' q);
          segments = (case segments of
                        [s] \<Rightarrow> if length s = 2 \<and> (isUpper (s ! 0) \<or> isLower (s ! 0)) \<and> s ! 1 = CHR '':''
                               then [s @ ''/''] else [s]
                      | _ \<Rightarrow> segments);
          d = joinWith ''/'' segments
      in if d = [] then (if isAbsolute p then ''/'' else ''.'') else d)"

text \<open>\<open>basename(p, extension)\<close>: the last non-empty segment, without the extension.\<close>

definition basenameExt :: "string \<Rightarrow> string \<Rightarrow> string" where
  "basenameExt p extension =
     (let segments = filter (\<lambda>s. s \<noteq> []) (splitOn CHR ''/'' (normalizeWindowsPath p));
          lastSegment = (if segments = [] then [] else last segments)
      in if extension \<noteq> [] \<and> endsWith lastSegment extension
         then take (length lastSegment - length extension) lastSegment
         else lastSegment)"

text \<open>
  \<open>resolve\<close> makes a path absolute against the working directory of the process, given
  here by its segments \<open>cwd\<close>, and normalises it; the model keeps the segments of the
  result after the root. \<open>relative\<close> drops the longest common prefix of the two
  resolved segment lists and answers with one \<open>..\<close> for every segment left of
  \<open>from\<close>, followed by what is left of \<open>to\<close>.
\<close>

definition resolveSegs :: "string list \<Rightarrow> string \<Rightarrow> string list" where
  "resolveSegs cwd p =
     (let q = normalizeWindowsPath p
      in normSegs False [] ((if q \<noteq> [] \<and> isAbsolute q then [] else cwd) @ splitOn CHR ''/'' q))"

fun dropCommon :: "string list \<Rightarrow> string list \<Rightarrow> string list \<times> string list" where
  "dropCommon (x # xs) (y # ys) = (if x = y then dropCommon xs ys else (x # xs, y # ys))"
| "dropCommon xs ys = (xs, ys)"

definition relative :: "string list \<Rightarrow> string \<Rightarrow> string \<Rightarrow> string" where
  "relative cwd from to =
     (case dropCommon (resolveSegs cwd from) (resolveSegs cwd to) of
        (f, t) \<Rightarrow> joinWith ''/'' (map (\<lambda>_. ''..'') f @ t))"

section \<open>Path utilities of the generator\<close>

text \<open>
  \<open>FOURSG_OUTPUT_DIR\<close> is the constant of the settings module; the constructor derives
  the site directory from it. Obsidian's \<open>normalizePath\<close> leaves both strings as they
  are.
\<close>

definition FOURSG_OUTPUT_DIR :: string where
  "FOURSG_OUTPUT_DIR = ''obsidian-foursg''"

definition outputPath :: string where
  "outputPath = FOURSG_OUTPUT_DIR"

definition sitePath :: string where
  "sitePath = outputPath @ ''/site''"

text \<open>The \<open>remove\<close> pattern \<open>[*+~.()'"!:@]\<close> of \<open>sanitizeFilename\<close>.\<close>

definition isRemoved :: "char \<Rightarrow> bool" where
  "isRemoved c = (c \<in> {CHR ''*'', CHR ''+'', CHR ''~'', CHR ''.'', CHR ''('', CHR '')'',
                        CHR 0x27, CHR 0x22, CHR ''!'', CHR '':'', CHR ''@''})"

definition sanitizeFilename :: "(char \<Rightarrow> string option) \<Rightarrow> string \<Rightarrow> string" where
  "sanitizeFilename ext filename = slugify ext isRemoved True True filename"

definition sanitizeDirectoryPath :: "(char \<Rightarrow> string option) \<Rightarrow> string \<Rightarrow> string" where
  "sanitizeDirectoryPath ext dirPath =
     joinWith ''/'' (map (sanitizeFilename ext) (splitOn CHR ''/'' dirPath))"

definition getOutputPath :: "(char \<Rightarrow> string option) \<Rightarrow> string \<Rightarrow> string" where
  "getOutputPath ext filePath =
     (let baseName = basenameExt filePath ''.md'';
          dirName = dirname filePath;
          isIndex = (toLowerCase baseName = ''index'');
          outputName = (if isIndex then ''index'' else sanitizeFilename ext baseName)
      in if dirName = ''.'' then join [sitePath, outputName @ ''.html'']
         else join [sitePath, sanitizeDirectoryPath ext dirName, outputName @ ''.html''])"

definition getImageOutputPath :: "(char \<Rightarrow> string option) \<Rightarrow> string \<Rightarrow> string" where
  "getImageOutputPath ext imagePath =
     (let dirName = dirname imagePath;
          fileName = basenameExt imagePath []
      in if dirName = ''.'' then join [sitePath, fileName]
         else join [sitePath, sanitizeDirectoryPath ext dirName, fileName])"

definition getRelativePath :: "string list \<Rightarrow> string \<Rightarrow> string \<Rightarrow> string" where
  "getRelativePath cwd fromPath toPath =
     (let fromDir = dirname fromPath;
          relativePath = relative cwd fromDir toPath
      in map (\<lambda>c. if c = backslash then CHR ''/'' else c) relativePath)"

section \<open>Documents and reference resolution\<close>

text \<open>
  A \<open>TFile\<close> of the host: its vault path, its file name and its base name (the file
  name without the extension). The filtered lists of markdown files and of image files
  are arguments of the functions that read them.
\<close>

record TFile =
  path :: string
  name :: string
  basename :: string

text \<open>\<open>linkName.replace(/\.md$/, '')\<close>.\<close>

definition stripMd :: "string \<Rightarrow> string" where
  "stripMd linkName =
     (if endsWith linkName ''.md'' then take (length linkName - 3) linkName else linkName)"

text \<open>The two loops of \<open>findTargetFile\<close>, each returning at its first hit.\<close>

fun findByPath :: "string \<Rightarrow> TFile list \<Rightarrow> TFile option" where
  "findByPath cleanLink [] = None"
| "findByPath cleanLink (file # files) =
     (if path file = cleanLink @ ''.md'' \<or> path file = cleanLink then Some file
      else findByPath cleanLink files)"

fun findByBasename :: "string \<Rightarrow> TFile list \<Rightarrow> TFile option" where
  "findByBasename cleanLink [] = None"
| "findByBasename cleanLink (file # files) =
     (if basename file = cleanLink then Some file else findByBasename cleanLink files)"

definition findTargetFile :: "TFile list \<Rightarrow> string \<Rightarrow> TFile option" where
  "findTargetFile files linkName =
     (let cleanLink = stripMd linkName
      in case findByPath cleanLink files of
           Some file \<Rightarrow> Some file
         | None \<Rightarrow> findByBasename cleanLink files)"

fun findImageFile :: "TFile list \<Rightarrow> string \<Rightarrow> TFile option" where
  "findImageFile [] imageName = None"
| "findImageFile (file # imageFiles) imageName =
     (if path file = imageName \<or> name file = imageName \<or> basename file = imageName then Some file
      else findImageFile imageFiles imageName)"

section \<open>Link rewriting\<close>

text \<open>
  A match of \<open>\[\[([^\]]+)\]\]\<close> at the start of a string: two opening brackets, the
  longest run of characters other than \<open>]\<close>, which must not be empty, and two closing
  brackets. The result is the captured text and what follows the match.
\<close>

definition matchBrackets :: "string \<Rightarrow> (string \<times> string) option" where
  "matchBrackets s =
     (if startsWith s ''[['' then
        (let inner = takeWhile (\<lambda>c. c \<noteq> CHR '']'') (drop 2 s);
             rest = dropWhile (\<lambda>c. c \<noteq> CHR '']'') (drop 2 s)
         in if inner \<noteq> [] \<and> startsWith rest '']]'' then Some (inner, drop 2 rest) else None)
      else None)"

lemma matchBrackets_shorter:
  "matchBrackets s = Some (inner, rest) \<Longrightarrow> length rest < length s"
proof -
  assume m: "matchBrackets s = Some (inner, rest)"
  then have r: "rest = drop 2 (dropWhile (\<lambda>c. c \<noteq> CHR '']'') (drop 2 s))" and s: "startsWith s ''[[''"
    by (auto simp: matchBrackets_def Let_def split: if_splits)
  have "length (dropWhile (\<lambda>c. c \<noteq> CHR '']'') (drop 2 s)) \<le> length (drop 2 s)"
    by (rule length_dropWhile_le)
  moreover have "2 \<le> length s" using s by (cases s; cases "tl s") (auto simp: startsWith_def)
  ultimately show ?thesis using r by simp
qed

text \<open>
  \<open>content.replace(/(?<!!)\[\[([^\]]+)\]\]/g, f)\<close>: the string is scanned from the
  left; where the pattern matches and the character before is not \<open>!\<close>, the match is
  replaced by \<open>f\<close> of the captured text and the scan goes on after it. \<open>afterBang\<close>
  says whether the character before the current position is \<open>!\<close>.
\<close>

function replaceWikiLinks :: "(string \<Rightarrow> string) \<Rightarrow> bool \<Rightarrow> string \<Rightarrow> string" where
  "replaceWikiLinks f afterBang [] = []"
| "replaceWikiLinks f afterBang (c # cs) =
     (case (if afterBang then None else matchBrackets (c # cs)) of
        Some (linkText, rest) \<Rightarrow> f linkText @ replaceWikiLinks f False rest
      | None \<Rightarrow> c # replaceWikiLinks f (c = CHR ''!'') cs)"
  by pat_completeness auto
termination
  by (relation "measure (\<lambda>(f, b, s). length s)")
     (auto split: if_splits dest: matchBrackets_shorter)

text \<open>\<open>content.replace(/!\[\[([^\]]+)\]\]/g, f)\<close>.\<close>

function replaceImageEmbeds :: "(string \<Rightarrow> string) \<Rightarrow> string \<Rightarrow> string" where
  "replaceImageEmbeds f [] = []"
| "replaceImageEmbeds f (c # cs) =
     (case (if c = CHR ''!'' then matchBrackets cs else None) of
        Some (imagePath, rest) \<Rightarrow> f imagePath @ replaceImageEmbeds f rest
      | None \<Rightarrow> c # replaceImageEmbeds f cs)"
  by pat_completeness auto
termination
  by (relation "measure (\<lambda>(f, s). length s)")
     (auto split: if_splits dest: matchBrackets_shorter)

text \<open>
  The callback of \<open>convertWikiLinks\<close>. \<open>parts[1]\<close> is taken as the label when it
  exists and is not the empty string.
\<close>

definition wikiLink :: "string \<Rightarrow> string" where
  "wikiLink linkText = trim (hd (splitOn CHR ''|'' linkText))"

definition wikiDisplayText :: "string \<Rightarrow> string" where
  "wikiDisplayText linkText =
     (let parts = splitOn CHR ''|'' linkText
      in if 1 < length parts \<and> parts ! 1 \<noteq> [] then trim (parts ! 1) else wikiLink linkText)"

definition wikiLinkMarkup ::
  "(char \<Rightarrow> string option) \<Rightarrow> string list \<Rightarrow> TFile list \<Rightarrow> TFile \<Rightarrow> string \<Rightarrow> string" where
  "wikiLinkMarkup ext cwd files file linkText =
     (let link = wikiLink linkText;
          displayText = wikiDisplayText linkText
      in case findTargetFile files link of
           None \<Rightarrow> ''['' @ displayText @ ''](#broken-link)''
         | Some targetFile \<Rightarrow>
             (let targetOutputPath = getOutputPath ext (path targetFile);
                  currentOutputPath = getOutputPath ext (path file);
                  relativePath = getRelativePath cwd currentOutputPath targetOutputPath
              in ''['' @ displayText @ '']('' @ relativePath @ '')''))"

definition convertWikiLinks ::
  "(char \<Rightarrow> string option) \<Rightarrow> string list \<Rightarrow> TFile list \<Rightarrow> TFile \<Rightarrow> string \<Rightarrow> string" where
  "convertWikiLinks ext cwd files file content =
     replaceWikiLinks (wikiLinkMarkup ext cwd files file) False content"

definition imageMarkup ::
  "(char \<Rightarrow> string option) \<Rightarrow> string list \<Rightarrow> TFile list \<Rightarrow> TFile \<Rightarrow> string \<Rightarrow> string" where
  "imageMarkup ext cwd imageFiles file imagePath =
     (case findImageFile imageFiles imagePath of
        None \<Rightarrow> ''!['' @ imagePath @ ''](#broken-image)''
      | Some imageFile \<Rightarrow>
          (let currentOutputPath = getOutputPath ext (path file);
               imageOutputPath = getImageOutputPath ext (path imageFile);
               relativePath = getRelativePath cwd currentOutputPath imageOutputPath
           in ''![]('' @ relativePath @ '')''))"

definition convertImageEmbeds ::
  "(char \<Rightarrow> string option) \<Rightarrow> string list \<Rightarrow> TFile list \<Rightarrow> TFile \<Rightarrow> string \<Rightarrow> string" where
  "convertImageEmbeds ext cwd imageFiles file content =
     replaceImageEmbeds (imageMarkup ext cwd imageFiles file) content"

text \<open>
  \<open>markdownToHTML\<close> runs the two passes in this order and hands the text to the
  markdown renderer \<open>marked\<close>, an external function.
\<close>

definition markdownToHTML ::
  "(string \<Rightarrow> string) \<Rightarrow> (char \<Rightarrow> string option) \<Rightarrow> string list \<Rightarrow> TFile list \<Rightarrow> TFile list \<Rightarrow>
   TFile \<Rightarrow> string \<Rightarrow> string" where
  "markdownToHTML marked ext cwd files imageFiles file content =
     (let processedContent = convertWikiLinks ext cwd files file content;
          processedContent = convertImageEmbeds ext cwd imageFiles file processedContent
      in marked processedContent)"

section \<open>Navigation tree\<close>

text \<open>
  \<open>buildNavigationTree\<close> builds mutable \<open>NavNode\<close> objects that are shared between
  the directory map and the \<open>children\<close> arrays of their parents. The model keeps the
  objects in a heap, a list in which an object's address is its position, and lets the
  arrays and the map hold addresses. The fields \<open>name\<close>, \<open>path\<close> and \<open>outputPath\<close> of
  the source are \<open>nodeName\<close>, \<open>nodePath\<close> and \<open>nodeOutputPath\<close> here.
\<close>

record NavNode =
  nodeName :: string
  nodePath :: string
  nodeOutputPath :: string
  children :: "nat list"
  isIndex :: bool



text \<open>\<open>parent.children.push(node)\<close> for the object at address \<open>p\<close>.\<close>

definition pushChild :: "nat \<Rightarrow> nat \<Rightarrow> NavNode list \<Rightarrow> NavNode list" where
  "pushChild p a h = h[p := (h ! p)\<lparr>children := children (h ! p) @ [a]\<rparr>]"







section \<open>Sitemap\<close>

text \<open>
  The interface \<open>SitemapUrl\<close>. A priority is a finite JavaScript number, modelled by the
  rational that the double is exactly: \<open>0.25\<close> is a quarter, while the literal \<open>0.35\<close>
  of a program text denotes a double just below 35 hundredths. The not-a-number value
  and the infinities are not values of the type.
\<close>

datatype changefreq = Always | Hourly | Daily | Weekly | Monthly | Yearly | Never

fun changefreqText :: "changefreq \<Rightarrow> string" where
  "changefreqText Always = ''always''"
| "changefreqText Hourly = ''hourly''"
| "changefreqText Daily = ''daily''"
| "changefreqText Weekly = ''weekly''"
| "changefreqText Monthly = ''monthly''"
| "changefreqText Yearly = ''yearly''"
| "changefreqText Never = ''never''"

record SitemapUrl =
  loc :: string
  lastmod :: "string option"
  changefreq :: "changefreq option"
  priority :: "rat option"

record SitemapGenerator =
  urls :: "SitemapUrl list"
  hostname :: string

text \<open>The constructor: \<open>hostname.replace(/\/$/, '')\<close>.\<close>

definition newSitemapGenerator :: "string \<Rightarrow> SitemapGenerator" where
  "newSitemapGenerator host =
     \<lparr>urls = [], hostname = (if host \<noteq> [] \<and> last host = CHR ''/'' then butlast host else host)\<rparr>"

definition addUrl :: "SitemapGenerator \<Rightarrow> SitemapUrl \<Rightarrow> SitemapGenerator" where
  "addUrl g url = g\<lparr>urls := urls g @ [url]\<rparr>"

definition escapeChar :: "char \<Rightarrow> string" where
  "escapeChar m =
     (if m = CHR ''&'' then ''&amp;''
      else if m = CHR ''<'' then ''&lt;''
      else if m = CHR ''>'' then ''&gt;''
      else if m = CHR 0x22 then ''&quot;''
      else if m = CHR 0x27 then ''&apos;''
      else [m])"

definition escapeXml :: "string \<Rightarrow> string" where
  "escapeXml text = concat (map escapeChar text)"

definition digitChar :: "nat \<Rightarrow> char" where
  "digitChar d = char_of (48 + d)"

function showNat :: "nat \<Rightarrow> string" where
  "showNat n = (if n < 10 then [digitChar n] else showNat (n div 10) @ [digitChar (n mod 10)])"
  by pat_completeness auto
termination
  by (relation "measure id") auto

declare showNat.simps [simp del]

text \<open>
  \<open>x.toFixed(1)\<close> for a finite \<open>x\<close>. From the magnitude \<open>10^21\<close> on the result is
  \<open>ToString(x)\<close>, the exponent notation of the number, which is left as the parameter
  \<open>numberToString\<close>. Below it: the integer \<open>n\<close> for which \<open>n / 10\<close> is nearest to the
  magnitude of \<open>x\<close>, the larger one of two, written with its last digit after the point,
  and a minus sign before it when \<open>x\<close> is negative.
\<close>

definition toFixed1 :: "(rat \<Rightarrow> string) \<Rightarrow> rat \<Rightarrow> string" where
  "toFixed1 numberToString x =
     (if \<bar>x\<bar> \<ge> 10 ^ 21 then numberToString x
      else (let n = nat \<lfloor>\<bar>x\<bar> * 10 + 1 / 2\<rfloor>
            in (if x < 0 then ''-'' else []) @ showNat (n div 10) @ ''.'' @ [digitChar (n mod 10)]))"

definition newline :: string where
  "newline = [CHR 0x0A]"

definition generateUrlEntry :: "(rat \<Rightarrow> string) \<Rightarrow> string \<Rightarrow> SitemapUrl \<Rightarrow> string" where
  "generateUrlEntry numberToString host url =
     (let l = host @ (if startsWith (loc url) ''/'' then [] else ''/'') @ loc url;
          entry = ''  <url>'' @ newline @ ''    <loc>'' @ escapeXml l @ ''</loc>'';
          entry = (case lastmod url of
                     Some d \<Rightarrow> if d \<noteq> [] then entry @ newline @ ''    <lastmod>'' @ d @ ''</lastmod>'' else entry
                   | None \<Rightarrow> entry);
          entry = (case changefreq url of
                     Some f \<Rightarrow> entry @ newline @ ''    <changefreq>'' @ changefreqText f @ ''</changefreq>''
                   | None \<Rightarrow> entry);
          entry = (case priority url of
                     Some p \<Rightarrow> entry @ newline @ ''    <priority>'' @ toFixed1 numberToString p @ ''</priority>''
                   | None \<Rightarrow> entry)
      in entry @ newline @ ''  </url>'')"

definition xmlPrologue :: string where
  "xmlPrologue =
     ''<?xml version='' @ [CHR 0x22] @ ''1.0'' @ [CHR 0x22] @ '' encoding='' @ [CHR 0x22] @ ''UTF-8''
     @ [CHR 0x22] @ ''?>'' @ newline
     @ ''<urlset xmlns='' @ [CHR 0x22] @ ''http://www.sitemaps.org/schemas/sitemap/0.9'' @ [CHR 0x22]
     @ ''>'' @ newline"

definition toXml :: "(rat \<Rightarrow> string) \<Rightarrow> SitemapGenerator \<Rightarrow> string" where
  "toXml numberToString g =
     (let urlEntries = joinWith newline (map (generateUrlEntry numberToString (hostname g)) (urls g))
      in xmlPrologue @ urlEntries @ newline @ ''</urlset>'')"

text \<open>
  The defaults of \<open>wrapInTemplate\<close> for the sitemap entry of a page. \<open>getPriority\<close>
  counts the parts of the path.
\<close>

definition getChangeFreq :: "string \<Rightarrow> changefreq" where
  "getChangeFreq filePath =
     (let baseName = toLowerCase (basenameExt filePath ''.md'')
      in if baseName = ''index'' then Weekly else Monthly)"

definition getPriority :: "string \<Rightarrow> rat" where
  "getPriority filePath =
     (let baseName = toLowerCase (basenameExt filePath ''.md'')
      in if baseName = ''index'' then
           (let depth = length (splitOn CHR ''/'' filePath)
            in if depth = 1 then 1.0 else 0.8)
         else 0.6)"

text \<open>
  \<open>getPageUrl\<close>: \<open>outputFilePath.replace(this.sitePath + '/', '')\<close> replaces the first
  occurrence of the site directory with its slash.
\<close>

fun removeFirst :: "string \<Rightarrow> string \<Rightarrow> string" where
  "removeFirst pat [] = []"
| "removeFirst pat (c # cs) =
     (if startsWith (c # cs) pat then drop (length pat) (c # cs) else c # removeFirst pat cs)"

definition getPageUrl :: "string \<Rightarrow> string" where
  "getPageUrl outputFilePath =
     map (\<lambda>c. if c = backslash then CHR ''/'' else c) (removeFirst (sitePath @ ''/'') outputFilePath)"

text \<open>
  The entry that \<open>wrapInTemplate\<close> builds for a page. The front matter is read for its
  keys \<open>changefreq\<close> and \<open>priority\<close> only, whose values, when the keys are there, are
  taken to have the types of the entry's fields; \<open>mtimeDate\<close> is the date part of the
  file's modification time.
\<close>

record FrontMatter =
  fmChangefreq :: "changefreq option"
  fmPriority :: "rat option"

definition sitemapUrlFor :: "(char \<Rightarrow> string option) \<Rightarrow> FrontMatter \<Rightarrow> TFile \<Rightarrow> string \<Rightarrow> SitemapUrl" where
  "sitemapUrlFor ext frontMatter file mtimeDate =
     \<lparr>loc = getPageUrl (getOutputPath ext (path file)),
      lastmod = Some mtimeDate,
      changefreq = Some (case fmChangefreq frontMatter of
                           Some f \<Rightarrow> f
                         | None \<Rightarrow> getChangeFreq (path file)),
      priority = Some (case fmPriority frontMatter of
                         Some p \<Rightarrow> p
                       | None \<Rightarrow> getPriority (path file))\<rparr>"

text \<open>The call \<open>this.sitemapGenerator.addUrl({...})\<close> of \<open>wrapInTemplate\<close>.\<close>

definition addPageUrl ::
  "(char \<Rightarrow> string option) \<Rightarrow> SitemapGenerator \<Rightarrow> FrontMatter \<Rightarrow> TFile \<Rightarrow> string \<Rightarrow> SitemapGenerator" where
  "addPageUrl ext g frontMatter file mtimeDate = addUrl g (sitemapUrlFor ext frontMatter file mtimeDate)"

section \<open>Directory removal\<close>


datatype fsCall = Exists string | List string | Remove string | Rmdir string bool











section \<open>Notions used in the statements and proofs\<close>

text \<open>A character of a slug word: a lower-case ASCII letter or a digit.\<close>

definition slugChar :: "char \<Rightarrow> bool" where
  "slugChar c = (isLower c \<or> isDigit c)"

definition dashToSpace :: "char \<Rightarrow> char" where
  "dashToSpace c = (if c = CHR ''-'' then CHR '' '' else c)"








text \<open>
  A clean path segment: not empty, not \<open>.\<close> or \<open>..\<close>, and without a slash, a backslash
  or a colon.
\<close>

definition cleanSeg :: "string \<Rightarrow> bool" where
  "cleanSeg s = (s \<noteq> [] \<and> s \<noteq> ''.'' \<and> s \<noteq> ''..'' \<and>
                 (\<forall>c \<in> set s. c \<noteq> CHR ''/'' \<and> c \<noteq> backslash \<and> c \<noteq> CHR '':''))"

text \<open>The non-empty segments of a path.\<close>

definition segments :: "string \<Rightarrow> string list" where
  "segments s = filter (\<lambda>x. x \<noteq> []) (splitOn CHR ''/'' s)"

text \<open>
  The name that \<open>getOutputPath\<close> gives the output file of a document, and the segments
  of its result: those of the site directory, the sanitised directories of the source
  that are not empty, and the file.
\<close>

definition outputName :: "(char \<Rightarrow> string option) \<Rightarrow> string \<Rightarrow> string" where
  "outputName ext filePath =
     (if toLowerCase (basenameExt filePath ''.md'') = ''index'' then ''index''
      else sanitizeFilename ext (basenameExt filePath ''.md''))"

definition outputSegments :: "(char \<Rightarrow> string option) \<Rightarrow> string \<Rightarrow> string list" where
  "outputSegments ext filePath =
     [''obsidian-foursg'', ''site'']
     @ filter (\<lambda>s. s \<noteq> []) (map (sanitizeFilename ext) (splitOn CHR ''/'' (dirname filePath)))
     @ [outputName ext filePath @ ''.html'']"

text \<open>
  A segment of a vault path: a file or folder name of the host, which is not empty and
  holds no slash, backslash or colon.
\<close>

definition vaultSeg :: "string \<Rightarrow> bool" where
  "vaultSeg s = (s \<noteq> [] \<and> (\<forall>c \<in> set s. c \<noteq> CHR ''/'' \<and> c \<noteq> backslash \<and> c \<noteq> CHR '':''))"




















text \<open>
  Notions for the two passes over the markers. The link pattern matches at a place at
  most once, so the matches the passes replace are the leftmost ones: a marker is taken
  in by an opening that stands before it and is still unclosed. \<open>opensLink\<close> says that
  a text starts with two opening brackets, goes on after them, and holds no closing
  bracket; \<open>openLink\<close> that a text holds such an opening that is not preceded by \<open>!\<close>
  (\<open>afterBang\<close>: the character before the text is \<open>!\<close>); \<open>openEmbed\<close> that a text holds
  \<open>![[\<close> with no closing bracket after it. \<open>bangEnd\<close> is the flag after a text, and
  \<open>extendRest\<close> appends a text to what follows a match.
\<close>

definition opensLink :: "string \<Rightarrow> bool" where
  "opensLink s = (startsWith s ''[['' \<and> drop 2 s \<noteq> [] \<and> CHR '']'' \<notin> set s)"

fun openLink :: "bool \<Rightarrow> string \<Rightarrow> bool" where
  "openLink afterBang [] = False"
| "openLink afterBang (c # cs) =
     ((\<not> afterBang \<and> opensLink (c # cs)) \<or> openLink (c = CHR ''!'') cs)"

fun openEmbed :: "string \<Rightarrow> bool" where
  "openEmbed [] = False"
| "openEmbed (c # cs) =
     ((c = CHR ''!'' \<and> startsWith cs ''[['' \<and> CHR '']'' \<notin> set cs) \<or> openEmbed cs)"

definition bangEnd :: "bool \<Rightarrow> string \<Rightarrow> bool" where
  "bangEnd afterBang s = (if s = [] then afterBang else last s = CHR ''!'')"

definition extendRest :: "string \<Rightarrow> (string \<times> string) option \<Rightarrow> (string \<times> string) option" where
  "extendRest R m = (case m of None \<Rightarrow> None | Some (inner, rest) \<Rightarrow> Some (inner, rest @ R))"
section \<open>Characters and strings\<close>

lemma isSpace_toLowerChar: "isSpace (toLowerChar c) = isSpace c"
  by (auto simp: isSpace_def toLowerChar_def isUpper_def Let_def)

lemma toLowerChar_fixed:
  "isLower c \<or> isDigit c \<or> c = CHR ''-'' \<or> isSpace c \<Longrightarrow> toLowerChar c = c"
  by (auto simp: isSpace_def toLowerChar_def isUpper_def isLower_def isDigit_def Let_def)

lemma toLowerChar_alnum: "isAlnum c \<Longrightarrow> isLower (toLowerChar c) \<or> isDigit (toLowerChar c)"
  by (auto simp: toLowerChar_def isUpper_def isLower_def isDigit_def isAlnum_def Let_def)

lemma dropWhile_isSpace_map_lower:
  "dropWhile isSpace (map toLowerChar s) = map toLowerChar (dropWhile isSpace s)"
  by (induction s) (auto simp: isSpace_toLowerChar)

lemma replaceSpaces_lower:
  "map toLowerChar (replaceSpaces ''-'' w) = replaceSpaces ''-'' (map toLowerChar w)"
  by (induction "''-''" w rule: replaceSpaces.induct)
     (auto simp: isSpace_toLowerChar dropWhile_isSpace_map_lower toLowerChar_fixed)

lemma isRemoved_not_slugChar: "isRemoved c \<Longrightarrow> \<not> slugChar c"
  by (auto simp: isRemoved_def slugChar_def isLower_def isDigit_def)

lemma charMapAscii_slugChar: "slugChar c \<Longrightarrow> charMapAscii c = None"
proof (rule ccontr)
  assume s: "slugChar c" and "charMapAscii c \<noteq> None"
  then have "c \<in> {CHR ''$'', CHR ''%'', CHR ''&'', CHR ''<'', CHR ''>'', CHR ''|''}"
    by (simp add: charMapAscii_def split: if_splits)
  then show False using s by (auto simp: slugChar_def isLower_def isDigit_def)
qed

lemma slugChar_not_space: "slugChar c \<Longrightarrow> \<not> isSpace c"
  by (auto simp: slugChar_def isLower_def isDigit_def isSpace_def)

lemma slugChar_not_dash: "slugChar c \<Longrightarrow> c \<noteq> CHR ''-''"
  by (auto simp: slugChar_def isLower_def isDigit_def)

lemma slugChar_ascii: "slugChar c \<Longrightarrow> (of_char c :: nat) < 128"
  by (auto simp: slugChar_def isLower_def isDigit_def)

lemma slugChar_alnum: "slugChar c \<Longrightarrow> isAlnum c"
  by (auto simp: slugChar_def isAlnum_def)

lemma isSpace_not_dash: "isSpace c \<Longrightarrow> c \<noteq> CHR ''-''"
  by (auto simp: isSpace_def)

lemma isSpace_space: "isSpace (CHR '' '')"
  by (simp add: isSpace_def)

lemma slugifyChar_slug:
  "slugChar c \<or> c = CHR ''-'' \<Longrightarrow> slugifyChar ext isRemoved c = [dashToSpace c]"
proof (cases "c = CHR ''-''")
  case True
  then show ?thesis
    by (simp add: slugifyChar_def charMap_def dashToSpace_def charMapAscii_def isRemoved_def)
next
  case False
  assume "slugChar c \<or> c = CHR ''-''"
  with False have s: "slugChar c" by simp
  have "charMap ext c = None"
    using s by (simp add: charMap_def slugChar_ascii charMapAscii_slugChar)
  moreover have "\<not> isRemoved c" using s isRemoved_not_slugChar by blast
  ultimately show ?thesis using False by (simp add: slugifyChar_def dashToSpace_def)
qed

lemma slugify_chars_of_slug:
  "\<forall>c \<in> set s. slugChar c \<or> c = CHR ''-'' \<Longrightarrow>
   concat (map (slugifyChar ext isRemoved) s) = map dashToSpace s"
  by (induction s) (auto simp: slugifyChar_slug)

lemma dropWhile_hd_id: "xs = [] \<or> \<not> P (hd xs) \<Longrightarrow> dropWhile P xs = xs"
  by (cases xs) auto

lemma dropWhile_hd_not: "dropWhile P xs = [] \<or> \<not> P (hd (dropWhile P xs))"
  by (induction xs) auto

lemma last_dropWhile: "dropWhile P xs \<noteq> [] \<Longrightarrow> last (dropWhile P xs) = last xs"
  by (induction xs) (auto split: if_splits)

lemma replaceSpaces_set:
  "set (replaceSpaces ''-'' w) \<subseteq> {c \<in> set w. \<not> isSpace c} \<union> {CHR ''-''}"
proof (induction "''-''" w rule: replaceSpaces.induct)
  case 1
  then show ?case by simp
next
  case (2 c cs)
  have "set (dropWhile isSpace cs) \<subseteq> set cs" by (auto dest: set_dropWhileD)
  with 2 show ?case by auto
qed

lemma replaceSpaces_hd:
  "w \<noteq> [] \<Longrightarrow> \<not> isSpace (hd w) \<Longrightarrow>
   replaceSpaces ''-'' w \<noteq> [] \<and> hd (replaceSpaces ''-'' w) = hd w"
  by (cases w) auto

lemma replaceSpaces_last:
  "w \<noteq> [] \<Longrightarrow> \<not> isSpace (last w) \<Longrightarrow>
   replaceSpaces ''-'' w \<noteq> [] \<and> last (replaceSpaces ''-'' w) = last w"
proof (induction "''-''" w rule: replaceSpaces.induct)
  case 1
  then show ?case by simp
next
  case (2 c cs)
  show ?case
  proof (cases "isSpace c")
    case True
    define d where "d = dropWhile isSpace cs"
    have csne: "cs \<noteq> []" using 2(4) True by auto
    then have lcs: "last (c # cs) = last cs" by simp
    have "last cs \<in> set cs" using csne by simp
    then have "\<exists>x \<in> set cs. \<not> isSpace x" using 2(4) lcs by auto
    then have ne: "d \<noteq> []" unfolding d_def by (simp add: dropWhile_eq_Nil_conv)
    then have ld: "last d = last cs" unfolding d_def by (rule last_dropWhile)
    have "replaceSpaces ''-'' d \<noteq> [] \<and> last (replaceSpaces ''-'' d) = last d"
      using 2(1)[OF True] ne ld 2(4) lcs unfolding d_def by simp
    then show ?thesis using True ld lcs d_def by simp
  next
    case False
    show ?thesis
    proof (cases cs)
      case Nil
      then show ?thesis using False by simp
    next
      case (Cons e es)
      then show ?thesis using 2(2)[OF False] 2(4) False by auto
    qed
  qed
qed

lemma trim_id: "s = [] \<or> (\<not> isSpace (hd s) \<and> \<not> isSpace (last s)) \<Longrightarrow> trim s = s"
proof -
  assume a: "s = [] \<or> (\<not> isSpace (hd s) \<and> \<not> isSpace (last s))"
  have 1: "dropWhile isSpace s = s" using a by (intro dropWhile_hd_id) auto
  have "rev s = [] \<or> \<not> isSpace (hd (rev s))" using a by (auto simp: hd_rev)
  then have 2: "dropWhile isSpace (rev s) = rev s" by (rule dropWhile_hd_id)
  show ?thesis by (simp add: trim_def 1 2)
qed

lemma hd_rev_dropWhile_rev:
  "dropWhile P (rev xs) \<noteq> [] \<Longrightarrow> hd (rev (dropWhile P (rev xs))) = hd xs"
proof -
  assume ne: "dropWhile P (rev xs) \<noteq> []"
  have "rev (rev xs) = rev (takeWhile P (rev xs) @ dropWhile P (rev xs))" by simp
  then have "xs = rev (dropWhile P (rev xs)) @ rev (takeWhile P (rev xs))"
    by (simp only: rev_append rev_rev_ident)
  then have "hd xs = hd (rev (dropWhile P (rev xs)) @ rev (takeWhile P (rev xs)))" by simp
  also have "\<dots> = hd (rev (dropWhile P (rev xs)))" using ne by simp
  finally show ?thesis by simp
qed

lemma trim_trimmed:
  "trim s = [] \<or> (\<not> isSpace (hd (trim s)) \<and> \<not> isSpace (last (trim s)))"
proof -
  define d where "d = dropWhile isSpace s"
  define r where "r = dropWhile isSpace (rev d)"
  have t: "trim s = rev r" by (simp add: trim_def r_def d_def)
  show ?thesis
  proof (cases "r = []")
    case True
    then show ?thesis by (simp add: t)
  next
    case False
    have "dropWhile isSpace (rev d) \<noteq> []" using False unfolding r_def .
    then have l: "\<not> isSpace (hd r)"
      using dropWhile_hd_not[of isSpace "rev d"] unfolding r_def by blast
    have dne: "d \<noteq> []" using False by (auto simp: r_def)
    then have hdd: "\<not> isSpace (hd d)"
      using dropWhile_hd_not[of isSpace s] unfolding d_def by blast
    have "hd (rev r) = hd d" using False unfolding r_def by (rule hd_rev_dropWhile_rev)
    then show ?thesis using False l hdd by (simp add: t last_rev)
  qed
qed

lemma set_trim: "set (trim s) \<subseteq> set s"
proof -
  have "set (trim s) = set (dropWhile isSpace (rev (dropWhile isSpace s)))"
    by (simp add: trim_def)
  also have "\<dots> \<subseteq> set (rev (dropWhile isSpace s))" by (auto dest: set_dropWhileD)
  also have "\<dots> \<subseteq> set s" by (auto dest: set_dropWhileD)
  finally show ?thesis .
qed

lemma replaceSpaces_dashToSpace:
  "\<forall>c \<in> set w. c \<noteq> CHR ''-'' \<Longrightarrow>
   replaceSpaces ''-'' (map dashToSpace (replaceSpaces ''-'' w)) = replaceSpaces ''-'' w"
proof (induction "''-''" w rule: replaceSpaces.induct)
  case 1
  then show ?case by simp
next
  case (2 c cs)
  show ?case
  proof (cases "isSpace c")
    case True
    define d where "d = dropWhile isSpace cs"
    have sub: "\<forall>c \<in> set d. c \<noteq> CHR ''-''"
      using 2(3) by (auto simp: d_def dest: set_dropWhileD)
    have ih: "replaceSpaces ''-'' (map dashToSpace (replaceSpaces ''-'' d)) = replaceSpaces ''-'' d"
      using 2(1)[OF True] sub unfolding d_def by simp
    have nosp: "dropWhile isSpace (map dashToSpace (replaceSpaces ''-'' d))
                = map dashToSpace (replaceSpaces ''-'' d)"
    proof (cases d)
      case Nil
      then show ?thesis by simp
    next
      case (Cons x xs)
      then have "\<not> isSpace x" using dropWhile_hd_not[of isSpace cs] by (simp add: d_def)
      moreover have "x \<noteq> CHR ''-''" using sub Cons by auto
      ultimately show ?thesis using Cons by (simp add: dashToSpace_def)
    qed
    have "replaceSpaces ''-'' (c # cs) = ''-'' @ replaceSpaces ''-'' d"
      using True by (simp add: d_def)
    then show ?thesis using ih nosp isSpace_space by (simp add: dashToSpace_def)
  next
    case False
    then show ?thesis using 2(2)[OF False] 2(3) by (auto simp: dashToSpace_def)
  qed
qed

section \<open>The sanitised form\<close>

text \<open>
  A sanitised name is \<open>replaceSpaces ''-'' w\<close> for a string \<open>w\<close> of slug characters and
  white space that neither starts nor ends with white space, and such a name is left
  unchanged by \<open>sanitizeFilename\<close>.
\<close>

lemma sanitizeFilename_fixed:
  assumes w: "\<forall>c \<in> set w. slugChar c \<or> isSpace c"
    and tr: "w = [] \<or> (\<not> isSpace (hd w) \<and> \<not> isSpace (last w))"
  shows "sanitizeFilename ext (replaceSpaces ''-'' w) = replaceSpaces ''-'' w"
proof -
  define out where "out = replaceSpaces ''-'' w"
  have nodash: "\<forall>c \<in> set w. c \<noteq> CHR ''-''"
    using w slugChar_not_dash isSpace_not_dash by blast
  have outset: "\<forall>c \<in> set out. slugChar c \<or> c = CHR ''-''"
    using replaceSpaces_set[of w] w unfolding out_def by blast
  have s1: "concat (map (slugifyChar ext isRemoved) out) = map dashToSpace out"
    using outset by (rule slugify_chars_of_slug)
  have keep: "\<forall>c \<in> set (map dashToSpace out). isAlnum c \<or> isSpace c"
    using outset by (auto simp: dashToSpace_def isSpace_space slugChar_alnum)
  have s2: "filter (\<lambda>c. isAlnum c \<or> isSpace c) (map dashToSpace out) = map dashToSpace out"
    using keep by (simp only: filter_True)
  have ends: "map dashToSpace out = [] \<or>
      (\<not> isSpace (hd (map dashToSpace out)) \<and> \<not> isSpace (last (map dashToSpace out)))"
  proof (cases "w = []")
    case True
    then show ?thesis by (simp add: out_def)
  next
    case False
    with tr have h: "\<not> isSpace (hd w)" and l: "\<not> isSpace (last w)" by auto
    have one: "out \<noteq> [] \<and> hd out = hd w"
      unfolding out_def using False h by (rule replaceSpaces_hd)
    have two: "out \<noteq> [] \<and> last out = last w"
      unfolding out_def using False l by (rule replaceSpaces_last)
    have "hd w \<in> set w" "last w \<in> set w" using False by auto
    then have "hd w \<noteq> CHR ''-''" "last w \<noteq> CHR ''-''" using nodash by auto
    then show ?thesis using one two h l by (simp add: hd_map last_map dashToSpace_def)
  qed
  have s3: "trim (map dashToSpace out) = map dashToSpace out" using ends by (rule trim_id)
  have s4: "replaceSpaces ''-'' (map dashToSpace out) = out"
    unfolding out_def using nodash by (rule replaceSpaces_dashToSpace)
  have s5: "map toLowerChar out = out"
  proof (intro map_idI)
    fix c assume "c \<in> set out"
    then have "slugChar c \<or> c = CHR ''-''" using outset by blast
    then show "toLowerChar c = c" by (intro toLowerChar_fixed) (auto simp: slugChar_def)
  qed
  show ?thesis
    unfolding out_def[symmetric]
    by (simp add: sanitizeFilename_def slugify_def toLowerCase_def s1 s2 s3 s4 s5)
qed

lemma sanitizeFilename_form:
  "\<exists>w. sanitizeFilename ext s = replaceSpaces ''-'' w \<and> (\<forall>c \<in> set w. slugChar c \<or> isSpace c) \<and>
       (w = [] \<or> (\<not> isSpace (hd w) \<and> \<not> isSpace (last w)))"
proof -
  define v where
    "v = trim (filter (\<lambda>c. isAlnum c \<or> isSpace c) (concat (map (slugifyChar ext isRemoved) s)))"
  define w where "w = map toLowerChar v"
  have eq: "sanitizeFilename ext s = replaceSpaces ''-'' w"
    by (simp add: sanitizeFilename_def slugify_def toLowerCase_def replaceSpaces_lower v_def w_def)
  have "set v \<subseteq> set (filter (\<lambda>c. isAlnum c \<or> isSpace c) (concat (map (slugifyChar ext isRemoved) s)))"
    unfolding v_def by (rule set_trim)
  then have vs: "\<forall>c \<in> set v. isAlnum c \<or> isSpace c" by auto
  have chars: "\<forall>c \<in> set w. slugChar c \<or> isSpace c"
  proof
    fix c assume "c \<in> set w"
    then obtain d where d: "d \<in> set v" "c = toLowerChar d" unfolding w_def by auto
    then have "isAlnum d \<or> isSpace d" using vs by blast
    then show "slugChar c \<or> isSpace c"
      using toLowerChar_alnum[of d] d(2) by (auto simp: isSpace_toLowerChar slugChar_def)
  qed
  have "v = [] \<or> (\<not> isSpace (hd v) \<and> \<not> isSpace (last v))"
    unfolding v_def by (rule trim_trimmed)
  then have ends: "w = [] \<or> (\<not> isSpace (hd w) \<and> \<not> isSpace (last w))"
    unfolding w_def by (auto simp: hd_map last_map isSpace_toLowerChar)
  show ?thesis using eq chars ends by blast
qed

section \<open>Splitting and joining\<close>

lemma splitOn_nonempty: "splitOn d s \<noteq> []"
  by (induction s) (auto split: list.splits)

lemma splitOn_no_sep: "d \<notin> set s \<Longrightarrow> splitOn d s = [s]"
  by (induction s) auto

lemma splitOn_append_sep: "splitOn d (a @ d # b) = splitOn d a @ splitOn d b"
proof (induction a)
  case Nil
  then show ?case by simp
next
  case (Cons c cs)
  show ?case
  proof (cases "c = d")
    case True
    then show ?thesis using Cons by simp
  next
    case False
    obtain w ws where w: "splitOn d cs = w # ws"
      using splitOn_nonempty[of d cs] by (cases "splitOn d cs") auto
    then show ?thesis using Cons False by simp
  qed
qed

lemma splitOn_joinWith:
  "xs \<noteq> [] \<Longrightarrow> \<forall>x \<in> set xs. d \<notin> set x \<Longrightarrow> splitOn d (joinWith [d] xs) = xs"
proof (induction "[d]" xs rule: joinWith.induct)
  case 1
  then show ?case by simp
next
  case (2 x)
  then show ?case by (simp add: splitOn_no_sep)
next
  case (3 x y ys)
  have "splitOn d (x @ d # joinWith [d] (y # ys)) = splitOn d x @ splitOn d (joinWith [d] (y # ys))"
    by (rule splitOn_append_sep)
  then show ?case using 3 by (simp add: splitOn_no_sep)
qed

lemma joinWith_append:
  "xs \<noteq> [] \<Longrightarrow> ys \<noteq> [] \<Longrightarrow> joinWith sep (xs @ ys) = joinWith sep xs @ sep @ joinWith sep ys"
proof (induction sep xs rule: joinWith.induct)
  case (1 sep)
  then show ?case by simp
next
  case (2 sep x)
  then show ?case by (cases ys) auto
next
  case (3 sep x y zs)
  then show ?case by simp
qed

lemma joinWith_nonempty: "xs \<noteq> [] \<Longrightarrow> \<forall>x \<in> set xs. x \<noteq> [] \<Longrightarrow> joinWith sep xs \<noteq> []"
  by (induction sep xs rule: joinWith.induct) auto

lemma set_joinWith: "set (joinWith sep xs) \<subseteq> set sep \<union> \<Union> (set ` set xs)"
  by (induction sep xs rule: joinWith.induct) auto

lemma hd_joinWith: "xs \<noteq> [] \<Longrightarrow> hd xs \<noteq> [] \<Longrightarrow> hd (joinWith sep xs) = hd (hd xs)"
  by (induction sep xs rule: joinWith.induct) auto

lemma last_joinWith:
  "xs \<noteq> [] \<Longrightarrow> last xs \<noteq> [] \<Longrightarrow>
   joinWith sep xs \<noteq> [] \<and> last (joinWith sep xs) = last (last xs)"
  by (induction sep xs rule: joinWith.induct) auto

lemma segments_Nil: "segments [] = []"
  by (simp add: segments_def)

lemma segments_append_sep: "segments (a @ CHR ''/'' # b) = segments a @ segments b"
  by (simp add: segments_def splitOn_append_sep)

lemma segments_joinWith:
  "\<forall>x \<in> set xs. CHR ''/'' \<notin> set x \<Longrightarrow> segments (joinWith ''/'' xs) = filter (\<lambda>x. x \<noteq> []) xs"
proof (cases "xs = []")
  case True
  then show ?thesis by (simp add: segments_def)
next
  case False
  assume "\<forall>x \<in> set xs. CHR ''/'' \<notin> set x"
  then have "splitOn CHR ''/'' (joinWith [CHR ''/''] xs) = xs"
    using False by (intro splitOn_joinWith) auto
  then show ?thesis by (simp add: segments_def)
qed

lemma joinLoop_segments:
  "segments (joinLoop acc segs) = segments acc @ concat (map segments segs)"
proof (induction segs arbitrary: acc)
  case Nil
  then show ?case by simp
next
  case (Cons seg segs)
  show ?case
  proof (cases "seg = []")
    case True
    then show ?thesis using Cons by (simp add: segments_Nil)
  next
    case sne: False
    show ?thesis
    proof (cases "acc = []")
      case True
      then show ?thesis using Cons sne by (simp add: segments_Nil)
    next
      case ane: False
      obtain acc' l where acc: "acc = acc' @ [l]" using ane by (metis rev_exhaust)
      obtain h seg' where seg: "seg = h # seg'" using sne by (cases seg) auto
      have lead: "h = CHR ''/'' \<Longrightarrow> segments seg = segments seg'"
        using segments_append_sep[of "[]" seg'] seg by (simp add: segments_Nil)
      have trail: "l = CHR ''/'' \<Longrightarrow> segments acc = segments acc'"
        using segments_append_sep[of acc' "[]"] acc by (simp add: segments_Nil)
      consider (both) "l = CHR ''/''" "h = CHR ''/''"
        | (tr) "l = CHR ''/''" "h \<noteq> CHR ''/''"
        | (ld) "l \<noteq> CHR ''/''" "h = CHR ''/''"
        | (none) "l \<noteq> CHR ''/''" "h \<noteq> CHR ''/''" by blast
      then show ?thesis
      proof cases
        case both
        have "segments (acc @ seg') = segments acc' @ segments seg'"
          using segments_append_sep[of acc' seg'] acc both by simp
        then show ?thesis using Cons[of "acc @ seg'"] both acc seg lead trail by simp
      next
        case tr
        have "segments (acc @ seg) = segments acc' @ segments seg"
          using segments_append_sep[of acc' seg] acc tr by simp
        then show ?thesis using Cons[of "acc @ seg"] tr acc seg trail by simp
      next
        case ld
        have "segments (acc @ seg) = segments acc @ segments seg'"
          using segments_append_sep[of acc seg'] seg ld by simp
        then show ?thesis using Cons[of "acc @ seg"] ld acc seg lead by simp
      next
        case none
        have "segments (acc @ CHR ''/'' # seg) = segments acc @ segments seg"
          by (rule segments_append_sep)
        then show ?thesis using Cons[of "acc @ CHR ''/'' # seg"] none acc seg by simp
      qed
    qed
  qed
qed

section \<open>Normalising segments\<close>

lemma normSegs_append:
  "normSegs ab acc (xs @ ys) = normSegs ab (normSegs ab acc xs) ys"
  by (induction xs arbitrary: acc) auto

lemma normSegs_skip_empty:
  "normSegs ab acc (filter (\<lambda>x. x \<noteq> []) xs) = normSegs ab acc xs"
  by (induction xs arbitrary: acc) auto

lemma normSegs_clean:
  "\<forall>x \<in> set xs. cleanSeg x \<Longrightarrow> normSegs ab acc xs = acc @ xs"
  by (induction xs arbitrary: acc) (auto simp: cleanSeg_def)

lemma normSegs_up:
  "\<forall>y \<in> set ys. cleanSeg y \<Longrightarrow>
   normSegs ab (xs @ ys) (replicate (length ys) ''..'' @ zs) = normSegs ab xs zs"
proof (induction ys rule: rev_induct)
  case Nil
  then show ?case by simp
next
  case (snoc y ys)
  have "y \<noteq> ''..''" using snoc.prems by (simp add: cleanSeg_def)
  then have "normSegs ab (xs @ ys @ [y]) (replicate (length (ys @ [y])) ''..'' @ zs)
      = normSegs ab (xs @ ys) (replicate (length ys) ''..'' @ zs)"
    by (simp add: butlast_append)
  then show ?case using snoc by simp
qed

lemma dropCommon_prefix: "dropCommon (c @ a) (c @ b) = dropCommon a b"
  by (induction c) auto

lemma dropCommon_split:
  "dropCommon a b = (f, t) \<Longrightarrow> \<exists>c. a = c @ f \<and> b = c @ t"
proof (induction a b arbitrary: f t rule: dropCommon.induct)
  case (1 x xs y ys)
  show ?case
  proof (cases "x = y")
    case True
    then have "dropCommon xs ys = (f, t)" using 1(2) by simp
    then obtain c where "xs = c @ f \<and> ys = c @ t" using 1(1)[OF True] by blast
    then have "x # xs = (x # c) @ f \<and> y # ys = (x # c) @ t" using True by simp
    then show ?thesis by blast
  next
    case False
    then show ?thesis using 1(2) by auto
  qed
qed auto

section \<open>Paths without drive letters\<close>

lemma normalizeWindowsPath_id:
  "backslash \<notin> set p \<Longrightarrow> CHR '':'' \<notin> set p \<Longrightarrow> normalizeWindowsPath p = p"
proof -
  assume b: "backslash \<notin> set p" and c: "CHR '':'' \<notin> set p"
  have m: "map (\<lambda>c. if c = backslash then CHR ''/'' else c) p = p"
    using b by (intro map_idI) auto
  have "3 \<le> length p \<Longrightarrow> p ! 1 \<noteq> CHR '':''" using c by (metis nth_mem One_nat_def Suc_le_lessD numeral_3_eq_3 Suc_lessD)
  then show ?thesis by (auto simp: normalizeWindowsPath_def m Let_def)
qed

lemma not_isAbsolute:
  "p \<noteq> [] \<Longrightarrow> \<not> isSep (hd p) \<Longrightarrow> CHR '':'' \<notin> set p \<Longrightarrow> \<not> isAbsolute p"
proof -
  assume ne: "p \<noteq> []" and h: "\<not> isSep (hd p)" and c: "CHR '':'' \<notin> set p"
  have 0: "p ! 0 = hd p" using ne by (simp add: hd_conv_nth)
  have "3 \<le> length p \<Longrightarrow> p ! 1 \<noteq> CHR '':''" using c by (metis nth_mem One_nat_def Suc_le_lessD numeral_3_eq_3 Suc_lessD)
  then show ?thesis using h 0 by (auto simp: isAbsolute_def)
qed

lemma normalize_relative:
  assumes "q \<noteq> []" "backslash \<notin> set q" "CHR '':'' \<notin> set q" "hd q \<noteq> CHR ''/''" "last q \<noteq> CHR ''/''"
    and "normSegs True [] (segments q) = r" "joinWith ''/'' r \<noteq> []"
  shows "normalize q = joinWith ''/'' r"
proof -
  have w: "normalizeWindowsPath q = q" using assms(2,3) by (rule normalizeWindowsPath_id)
  have "hd q \<in> set q" using assms(1) by simp
  then have "\<not> isSep (hd q)" using assms(2,4) by (auto simp: isSep_def)
  then have a: "\<not> isAbsolute q" using assms(1,3) by (intro not_isAbsolute)
  have "normalizeString q True = joinWith ''/'' r"
    using assms(6) by (simp add: normalizeString_def segments_def normSegs_skip_empty)
  then show ?thesis using assms(1,5,7) w a by (simp add: normalize_def Let_def)
qed

section \<open>Sanitised names as path segments\<close>

lemma sanitizeFilename_chars: "\<forall>c \<in> set (sanitizeFilename ext s). slugChar c \<or> c = CHR ''-''"
proof -
  obtain w where "sanitizeFilename ext s = replaceSpaces ''-'' w"
    and "\<forall>c \<in> set w. slugChar c \<or> isSpace c"
    using sanitizeFilename_form by blast
  then show ?thesis using replaceSpaces_set[of w] by auto
qed

lemma slugChar_plain:
  "slugChar c \<or> c = CHR ''-'' \<Longrightarrow>
   c \<noteq> CHR ''/'' \<and> c \<noteq> backslash \<and> c \<noteq> CHR '':'' \<and> c \<noteq> CHR ''.''"
  by (auto simp: slugChar_def isLower_def isDigit_def backslash_def)

lemma slug_cleanSeg:
  "s \<noteq> [] \<Longrightarrow> \<forall>c \<in> set s. slugChar c \<or> c = CHR ''-'' \<Longrightarrow> cleanSeg s"
proof -
  assume ne: "s \<noteq> []" and ch: "\<forall>c \<in> set s. slugChar c \<or> c = CHR ''-''"
  have "CHR ''.'' \<notin> set s" using ch slugChar_plain by blast
  then have "s \<noteq> ''.''" "s \<noteq> ''..''" by auto
  then show ?thesis using ne ch slugChar_plain unfolding cleanSeg_def by blast
qed

lemma sanitizeFilename_cleanSeg: "sanitizeFilename ext s \<noteq> [] \<Longrightarrow> cleanSeg (sanitizeFilename ext s)"
  using sanitizeFilename_chars slug_cleanSeg by blast

lemma sanitizeFilename_dot: "sanitizeFilename ext ''.'' = []"
  by (simp add: sanitizeFilename_def slugify_def slugifyChar_def charMap_def charMapAscii_def
      isRemoved_def trim_def toLowerCase_def Let_def)

lemma outputName_chars: "\<forall>c \<in> set (outputName ext p). slugChar c \<or> c = CHR ''-''"
proof (cases "toLowerCase (basenameExt p ''.md'') = ''index''")
  case True
  then show ?thesis by (simp add: outputName_def slugChar_def isLower_def)
next
  case False
  then show ?thesis using sanitizeFilename_chars by (simp add: outputName_def)
qed

lemma html_cleanSeg:
  "\<forall>c \<in> set n. slugChar c \<or> c = CHR ''-'' \<Longrightarrow> cleanSeg (n @ ''.html'')"
proof -
  assume ch: "\<forall>c \<in> set n. slugChar c \<or> c = CHR ''-''"
  have "length (n @ ''.html'') \<noteq> length ''.''" "length (n @ ''.html'') \<noteq> length ''..''"
    by simp_all
  then have 1: "n @ ''.html'' \<noteq> ''.''" "n @ ''.html'' \<noteq> ''..''" by fastforce+
  have "\<forall>c \<in> set ''.html''. c \<noteq> CHR ''/'' \<and> c \<noteq> backslash \<and> c \<noteq> CHR '':''"
    by (simp add: backslash_def)
  then have "\<forall>c \<in> set (n @ ''.html''). c \<noteq> CHR ''/'' \<and> c \<noteq> backslash \<and> c \<noteq> CHR '':''"
    using ch slugChar_plain by auto
  then show ?thesis using 1 unfolding cleanSeg_def by blast
qed

section \<open>The shape of a joined path\<close>

lemma joinLoop_prefix:
  "\<exists>X. joinLoop acc segs = acc @ X \<and> set X \<subseteq> {CHR ''/''} \<union> \<Union> (set ` set segs)"
proof (induction segs arbitrary: acc)
  case Nil
  then show ?case by simp
next
  case (Cons seg segs)
  show ?case
  proof (cases "seg = [] \<or> acc = []")
    case True
    obtain X where "joinLoop (acc @ seg) segs = (acc @ seg) @ X"
      "set X \<subseteq> {CHR ''/''} \<union> \<Union> (set ` set segs)"
      using Cons[of "acc @ seg"] by blast
    then have "joinLoop acc (seg # segs) = acc @ (seg @ X) \<and>
        set (seg @ X) \<subseteq> {CHR ''/''} \<union> \<Union> (set ` set (seg # segs))"
      using True by auto
    then show ?thesis by blast
  next
    case False
    define Y where "Y = (if last acc = CHR ''/'' \<and> hd seg = CHR ''/'' then tl seg
                         else if last acc = CHR ''/'' \<or> hd seg = CHR ''/'' then seg
                         else CHR ''/'' # seg)"
    have step: "joinLoop acc (seg # segs) = joinLoop (acc @ Y) segs"
      using False by (simp add: Y_def Let_def)
    have "set (tl seg) \<subseteq> set seg" using False by (cases seg) auto
    then have Y: "set Y \<subseteq> {CHR ''/''} \<union> set seg" by (auto simp: Y_def)
    obtain X where "joinLoop (acc @ Y) segs = (acc @ Y) @ X"
      "set X \<subseteq> {CHR ''/''} \<union> \<Union> (set ` set segs)"
      using Cons[of "acc @ Y"] by blast
    then have "joinLoop acc (seg # segs) = acc @ (Y @ X) \<and>
        set (Y @ X) \<subseteq> {CHR ''/''} \<union> \<Union> (set ` set (seg # segs))"
      using step Y by auto
    then show ?thesis by blast
  qed
qed

lemma joinLoop_last:
  "segs \<noteq> [] \<Longrightarrow> last segs \<noteq> [] \<Longrightarrow> last (joinLoop acc segs) = last (last segs)"
proof (induction segs arbitrary: acc)
  case Nil
  then show ?case by simp
next
  case (Cons seg segs)
  show ?case
  proof (cases "segs = []")
    case True
    then have sne: "seg \<noteq> []" using Cons.prems by simp
    show ?thesis
    proof (cases "acc = []")
      case True
      then show ?thesis using \<open>segs = []\<close> sne by simp
    next
      case False
      obtain h t where seg: "seg = h # t" using sne by (cases seg) auto
      show ?thesis
      proof (cases "t = []")
        case True
        then show ?thesis using \<open>segs = []\<close> seg False by (auto simp: Let_def)
      next
        case tne: False
        then show ?thesis using \<open>segs = []\<close> seg False by (auto simp: Let_def)
      qed
    qed
  next
    case False
    then have "last (seg # segs) = last segs" by simp
    then have "\<And>a. last (joinLoop a segs) = last (last (seg # segs))"
      using Cons.IH False Cons.prems by simp
    then show ?thesis by (simp add: Let_def del: last.simps)
  qed
qed

lemma sitePath_chars:
  "sitePath \<noteq> []" "hd sitePath = CHR ''o''"
  "\<forall>c \<in> set sitePath. c \<noteq> backslash \<and> c \<noteq> CHR '':''"
  "segments sitePath = [''obsidian-foursg'', ''site'']"
  by (simp_all add: sitePath_def outputPath_def FOURSG_OUTPUT_DIR_def backslash_def segments_def)

lemma cleanSeg_segments: "cleanSeg s \<Longrightarrow> segments s = [s]"
proof -
  assume c: "cleanSeg s"
  then have "CHR ''/'' \<notin> set s" by (auto simp: cleanSeg_def)
  then have "splitOn CHR ''/'' s = [s]" by (rule splitOn_no_sep)
  then show ?thesis using c by (simp add: segments_def cleanSeg_def)
qed

text \<open>
  Joining the site directory with any directory string whose non-empty segments are
  clean, and a clean file name.
\<close>

lemma slash_plain: "CHR ''/'' \<noteq> backslash" "CHR ''/'' \<noteq> CHR '':''"
  by (simp_all add: backslash_def)

lemma site_cleanSegs: "cleanSeg ''obsidian-foursg''" "cleanSeg ''site''"
  by (simp_all add: cleanSeg_def backslash_def)

lemma join_site:
  assumes sd: "\<forall>c \<in> set sd. c \<noteq> backslash \<and> c \<noteq> CHR '':''"
    and segs: "\<forall>s \<in> set (segments sd). cleanSeg s"
    and f: "cleanSeg f"
  shows "join [sitePath, sd, f] = joinWith ''/'' ([''obsidian-foursg'', ''site''] @ segments sd @ [f])"
proof -
  define q where "q = joinLoop [] [sitePath, sd, f]"
  have q1: "q = joinLoop sitePath [sd, f]" using sitePath_chars(1) by (simp add: q_def)
  obtain X where X: "q = sitePath @ X" and X2: "set X \<subseteq> {CHR ''/''} \<union> \<Union> (set ` set [sd, f])"
    using joinLoop_prefix[of sitePath "[sd, f]"] q1 by auto
  have X3: "set X \<subseteq> {CHR ''/''} \<union> set sd \<union> set f" using X2 by auto
  have fne: "f \<noteq> []" using f by (simp add: cleanSeg_def)
  have fch: "\<forall>c \<in> set f. c \<noteq> backslash \<and> c \<noteq> CHR '':'' \<and> c \<noteq> CHR ''/''"
    using f unfolding cleanSeg_def by blast
  have Xch: "\<forall>c \<in> set X. c \<noteq> backslash \<and> c \<noteq> CHR '':''"
  proof
    fix c assume "c \<in> set X"
    then consider "c = CHR ''/''" | "c \<in> set sd" | "c \<in> set f" using X3 by blast
    then show "c \<noteq> backslash \<and> c \<noteq> CHR '':''"
    proof cases
      case 1
      then show ?thesis using slash_plain by simp
    next
      case 2
      then show ?thesis using sd by blast
    next
      case 3
      then show ?thesis using fch by blast
    qed
  qed
  have qch1: "backslash \<notin> set q" using X Xch sitePath_chars(3) by auto
  have qch2: "CHR '':'' \<notin> set q" using X Xch sitePath_chars(3) by auto
  have qne: "q \<noteq> []" using X sitePath_chars(1) by simp
  have "hd q = CHR ''o''" using X sitePath_chars(1,2) by simp
  then have qhd: "hd q \<noteq> CHR ''/''" by simp
  have "last q = last (last [sitePath, sd, f])"
    unfolding q_def by (rule joinLoop_last) (simp_all add: fne)
  then have "last q = last f" by simp
  moreover have "last f \<in> set f" using fne by simp
  ultimately have qlast: "last q \<noteq> CHR ''/''" using fch by auto
  have "segments q = segments [] @ concat (map segments [sitePath, sd, f])"
    unfolding q_def by (rule joinLoop_segments)
  then have seg: "segments q = [''obsidian-foursg'', ''site''] @ segments sd @ [f]"
    by (simp add: segments_Nil sitePath_chars(4) cleanSeg_segments[OF f])
  have allclean: "\<forall>s \<in> set (segments q). cleanSeg s"
    unfolding seg using site_cleanSegs segs f by auto
  have "normSegs True [] (segments q) = [] @ segments q"
    using allclean by (rule normSegs_clean)
  then have norm: "normSegs True [] (segments q) = segments q" by simp
  have "segments q \<noteq> []" by (simp add: seg)
  moreover have "\<forall>x \<in> set (segments q). x \<noteq> []" using allclean by (auto simp: cleanSeg_def)
  ultimately have jne: "joinWith ''/'' (segments q) \<noteq> []" by (rule joinWith_nonempty)
  have "normalize q = joinWith ''/'' (segments q)"
    using qne qch1 qch2 qhd qlast norm jne by (rule normalize_relative)
  moreover have "join [sitePath, sd, f] = normalize q" by (simp only: join_def q_def)
  ultimately show ?thesis by (simp only: seg)
qed

lemma join_site_file:
  "cleanSeg f \<Longrightarrow> join [sitePath, f] = joinWith ''/'' [''obsidian-foursg'', ''site'', f]"
proof -
  assume f: "cleanSeg f"
  have "join [sitePath, [], f] = joinWith ''/'' ([''obsidian-foursg'', ''site''] @ segments [] @ [f])"
    using f by (intro join_site) (simp_all add: segments_Nil)
  moreover have "join [sitePath, [], f] = join [sitePath, f]" by (simp add: join_def)
  ultimately show ?thesis by (simp add: segments_Nil)
qed

lemma sanitizeFilename_plain:
  "c \<in> set (sanitizeFilename ext s) \<Longrightarrow>
   c \<noteq> CHR ''/'' \<and> c \<noteq> backslash \<and> c \<noteq> CHR '':'' \<and> c \<noteq> CHR ''.''"
proof -
  assume "c \<in> set (sanitizeFilename ext s)"
  then have "slugChar c \<or> c = CHR ''-''" using sanitizeFilename_chars by blast
  then show ?thesis by (rule slugChar_plain)
qed

lemma sanitizeDirectoryPath_segments:
  "segments (sanitizeDirectoryPath ext d)
     = filter (\<lambda>s. s \<noteq> []) (map (sanitizeFilename ext) (splitOn CHR ''/'' d))"
  unfolding sanitizeDirectoryPath_def
proof (rule segments_joinWith)
  show "\<forall>x \<in> set (map (sanitizeFilename ext) (splitOn CHR ''/'' d)). CHR ''/'' \<notin> set x"
  proof
    fix x assume "x \<in> set (map (sanitizeFilename ext) (splitOn CHR ''/'' d))"
    then obtain s where x: "x = sanitizeFilename ext s" by auto
    show "CHR ''/'' \<notin> set x" unfolding x using sanitizeFilename_plain by blast
  qed
qed

lemma sanitizeDirectoryPath_chars:
  "\<forall>c \<in> set (sanitizeDirectoryPath ext d). c \<noteq> backslash \<and> c \<noteq> CHR '':''"
proof
  fix c assume c: "c \<in> set (sanitizeDirectoryPath ext d)"
  have "set (sanitizeDirectoryPath ext d)
      \<subseteq> set ''/'' \<union> \<Union> (set ` set (map (sanitizeFilename ext) (splitOn CHR ''/'' d)))"
    unfolding sanitizeDirectoryPath_def by (rule set_joinWith)
  then have "c \<in> set ''/'' \<union> \<Union> (set ` set (map (sanitizeFilename ext) (splitOn CHR ''/'' d)))"
    using c by (rule subsetD)
  then consider "c = CHR ''/''" | s where "c \<in> set (sanitizeFilename ext s)" by auto
  then show "c \<noteq> backslash \<and> c \<noteq> CHR '':''"
  proof cases
    case 1
    then show ?thesis using slash_plain by simp
  next
    case 2
    then show ?thesis using sanitizeFilename_plain by blast
  qed
qed

lemma outputFile_cleanSeg: "cleanSeg (outputName ext p @ ''.html'')"
  using outputName_chars by (rule html_cleanSeg)

text \<open>The output path of any document path, by its segments.\<close>

lemma getOutputPath_segments: "getOutputPath ext p = joinWith ''/'' (outputSegments ext p)"
proof (cases "dirname p = ''.''")
  case True
  have "getOutputPath ext p = join [sitePath, outputName ext p @ ''.html'']"
    using True by (simp add: getOutputPath_def outputName_def Let_def)
  also have "\<dots> = joinWith ''/'' [''obsidian-foursg'', ''site'', outputName ext p @ ''.html'']"
    using outputFile_cleanSeg by (rule join_site_file)
  finally show ?thesis using True by (simp add: outputSegments_def sanitizeFilename_dot)
next
  case False
  have cl: "\<forall>s \<in> set (segments (sanitizeDirectoryPath ext (dirname p))). cleanSeg s"
    using sanitizeFilename_cleanSeg by (auto simp: sanitizeDirectoryPath_segments)
  have "getOutputPath ext p
      = join [sitePath, sanitizeDirectoryPath ext (dirname p), outputName ext p @ ''.html'']"
    using False by (simp add: getOutputPath_def outputName_def Let_def)
  also have "\<dots> = joinWith ''/'' ([''obsidian-foursg'', ''site'']
      @ segments (sanitizeDirectoryPath ext (dirname p)) @ [outputName ext p @ ''.html''])"
    using sanitizeDirectoryPath_chars cl outputFile_cleanSeg by (rule join_site)
  finally show ?thesis by (simp add: outputSegments_def sanitizeDirectoryPath_segments)
qed

lemma outputSegments_clean: "\<forall>s \<in> set (outputSegments ext p). cleanSeg s"
proof -
  show ?thesis
    using site_cleanSegs sanitizeFilename_cleanSeg outputFile_cleanSeg
    by (auto simp: outputSegments_def)
qed

section \<open>Vault paths\<close>

lemma cleanSeg_vaultSeg: "cleanSeg s \<Longrightarrow> vaultSeg s"
  by (simp add: cleanSeg_def vaultSeg_def)

lemma vault_path_chars:
  assumes "\<forall>s \<in> set segs. vaultSeg s"
  shows "backslash \<notin> set (joinWith ''/'' segs)" "CHR '':'' \<notin> set (joinWith ''/'' segs)"
proof -
  have sub: "set (joinWith ''/'' segs) \<subseteq> set ''/'' \<union> \<Union> (set ` set segs)" by (rule set_joinWith)
  have "\<And>c. c \<in> set (joinWith ''/'' segs) \<Longrightarrow> c \<noteq> backslash \<and> c \<noteq> CHR '':''"
  proof -
    fix c assume "c \<in> set (joinWith ''/'' segs)"
    with sub have "c \<in> set ''/'' \<union> \<Union> (set ` set segs)" by (rule subsetD)
    then consider "c = CHR ''/''" | s where "s \<in> set segs" "c \<in> set s" by auto
    then show "c \<noteq> backslash \<and> c \<noteq> CHR '':''"
    proof cases
      case 1
      then show ?thesis using slash_plain by simp
    next
      case 2
      then show ?thesis using assms unfolding vaultSeg_def by blast
    qed
  qed
  then show "backslash \<notin> set (joinWith ''/'' segs)" "CHR '':'' \<notin> set (joinWith ''/'' segs)"
    by blast+
qed

lemma vault_split:
  assumes "segs \<noteq> []" "\<forall>s \<in> set segs. vaultSeg s"
  shows "splitOn CHR ''/'' (joinWith ''/'' segs) = segs"
proof -
  have "\<forall>x \<in> set segs. CHR ''/'' \<notin> set x" using assms(2) unfolding vaultSeg_def by blast
  then have "splitOn CHR ''/'' (joinWith [CHR ''/''] segs) = segs"
    using assms(1) by (intro splitOn_joinWith)
  then show ?thesis by simp
qed

lemma vault_path_ends:
  assumes "segs \<noteq> []" "\<forall>s \<in> set segs. vaultSeg s"
  shows "joinWith ''/'' segs \<noteq> []" "hd (joinWith ''/'' segs) \<noteq> CHR ''/''"
    "last (joinWith ''/'' segs) \<noteq> CHR ''/''" "\<not> isAbsolute (joinWith ''/'' segs)"
proof -
  have ne: "\<forall>x \<in> set segs. x \<noteq> []" using assms(2) unfolding vaultSeg_def by blast
  show 1: "joinWith ''/'' segs \<noteq> []" using assms(1) ne by (rule joinWith_nonempty)
  have h: "hd segs \<in> set segs" "last segs \<in> set segs" using assms(1) by simp_all
  then have hne: "hd segs \<noteq> []" "last segs \<noteq> []" using ne by blast+
  have "hd (joinWith ''/'' segs) = hd (hd segs)" using assms(1) hne(1) by (rule hd_joinWith)
  moreover have "hd (hd segs) \<in> set (hd segs)" using hne(1) by simp
  ultimately have 2: "hd (joinWith ''/'' segs) \<noteq> CHR ''/'' \<and> hd (joinWith ''/'' segs) \<noteq> backslash"
    using assms(2) h(1) unfolding vaultSeg_def by metis
  then show "hd (joinWith ''/'' segs) \<noteq> CHR ''/''" by simp
  have "last (joinWith ''/'' segs) = last (last segs)"
    using last_joinWith[OF assms(1) hne(2)] by simp
  moreover have "last (last segs) \<in> set (last segs)" using hne(2) by simp
  ultimately show "last (joinWith ''/'' segs) \<noteq> CHR ''/''"
    using assms(2) h(2) unfolding vaultSeg_def by metis
  have "\<not> isSep (hd (joinWith ''/'' segs))" using 2 by (simp add: isSep_def)
  then show "\<not> isAbsolute (joinWith ''/'' segs)"
    using 1 vault_path_chars(2)[OF assms(2)] by (intro not_isAbsolute)
qed

lemma dirname_vault:
  assumes "\<forall>s \<in> set (dirs @ [file]). vaultSeg s"
  shows "dirname (joinWith ''/'' (dirs @ [file])) = (if dirs = [] then ''.'' else joinWith ''/'' dirs)"
proof -
  define p where "p = joinWith ''/'' (dirs @ [file])"
  have ne: "dirs @ [file] \<noteq> []" by simp
  have w: "normalizeWindowsPath p = p"
    unfolding p_def using vault_path_chars[OF assms] by (intro normalizeWindowsPath_id)
  have pne: "p \<noteq> []" and pl: "last p \<noteq> CHR ''/''" and pa: "\<not> isAbsolute p"
    unfolding p_def using vault_path_ends[OF ne assms] by blast+
  have sp: "splitOn CHR ''/'' p = dirs @ [file]" unfolding p_def using ne assms by (rule vault_split)
  have nodrive: "\<And>s. s \<in> set dirs \<Longrightarrow> \<not> (length s = 2 \<and> s ! 1 = CHR '':'')"
  proof
    fix s assume s: "s \<in> set dirs" and d: "length s = 2 \<and> s ! 1 = CHR '':''"
    have "1 < length s" using d by simp
    then have "s ! 1 \<in> set s" by (rule nth_mem)
    moreover have "s ! 1 = CHR '':''" using d by blast
    ultimately have "CHR '':'' \<in> set s" by (simp only:)
    then show False using assms s unfolding vaultSeg_def by auto
  qed
  have segs: "(case dirs of
                 [s] \<Rightarrow> if length s = 2 \<and> (isUpper (s ! 0) \<or> isLower (s ! 0)) \<and> s ! 1 = CHR '':''
                        then [s @ ''/''] else [s]
               | _ \<Rightarrow> dirs) = dirs"
    using nodrive by (cases dirs; cases "tl dirs") auto
  have d: "dirname p = (if joinWith ''/'' dirs = [] then ''.'' else joinWith ''/'' dirs)"
  proof -
    have b: "butlast (splitOn CHR ''/'' p) = dirs" using sp by simp
    have q: "(if p \<noteq> [] \<and> last p = CHR ''/'' then butlast p else p) = p" using pl by simp
    show ?thesis
      unfolding dirname_def Let_def w q b segs using pa by simp
  qed
  show ?thesis
  proof (cases "dirs = []")
    case True
    then show ?thesis using d by (simp add: p_def)
  next
    case False
    have "\<forall>x \<in> set dirs. x \<noteq> []" using assms unfolding vaultSeg_def by auto
    then have "joinWith ''/'' dirs \<noteq> []" using False by (intro joinWith_nonempty)
    then show ?thesis using d False by (simp add: p_def)
  qed
qed

lemma basenameExt_vault:
  assumes "\<forall>s \<in> set (dirs @ [file]). vaultSeg s"
  shows "basenameExt (joinWith ''/'' (dirs @ [file])) e
           = (if e \<noteq> [] \<and> endsWith file e then take (length file - length e) file else file)"
proof -
  define p where "p = joinWith ''/'' (dirs @ [file])"
  have ne: "dirs @ [file] \<noteq> []" by simp
  have w: "normalizeWindowsPath p = p"
    unfolding p_def using vault_path_chars[OF assms] by (intro normalizeWindowsPath_id)
  have sp: "splitOn CHR ''/'' p = dirs @ [file]" unfolding p_def using ne assms by (rule vault_split)
  have fne: "file \<noteq> []" using assms unfolding vaultSeg_def by auto
  show ?thesis unfolding p_def[symmetric] using w sp fne by (simp add: basenameExt_def Let_def)
qed

lemma endsWith_append: "endsWith (a @ b) b"
  by (simp add: endsWith_def)

lemma joinWith_snoc_endsWith: "endsWith x e \<Longrightarrow> endsWith (joinWith sep (xs @ [x])) e"
proof (cases "xs = []")
  case True
  then show "endsWith x e \<Longrightarrow> ?thesis" by simp
next
  case False
  assume "endsWith x e"
  then obtain a where "x = a @ e"
    unfolding endsWith_def by (metis append_take_drop_id)
  then have "joinWith sep (xs @ [x]) = (joinWith sep xs @ sep @ a) @ e"
    using False by (simp add: joinWith_append)
  then show ?thesis using endsWith_append by metis
qed

section \<open>Relative paths between output paths\<close>

lemma dirname_clean:
  assumes "\<forall>s \<in> set segs. cleanSeg s" "2 \<le> length segs"
  shows "dirname (joinWith ''/'' segs) = joinWith ''/'' (butlast segs)"
proof -
  have ne: "segs \<noteq> []" using assms(2) by auto
  then have s: "segs = butlast segs @ [last segs]" by simp
  have "\<forall>s \<in> set (butlast segs @ [last segs]). vaultSeg s"
    using assms(1) cleanSeg_vaultSeg s by metis
  then have "dirname (joinWith ''/'' (butlast segs @ [last segs]))
      = (if butlast segs = [] then ''.'' else joinWith ''/'' (butlast segs))"
    by (rule dirname_vault)
  moreover have "butlast segs \<noteq> []" using assms(2) by (cases segs; cases "tl segs") auto
  ultimately show ?thesis using s by simp
qed

lemma resolveSegs_clean:
  assumes "segs \<noteq> []" "\<forall>s \<in> set segs. cleanSeg s"
  shows "resolveSegs cwd (joinWith ''/'' segs) = normSegs False [] cwd @ segs"
proof -
  define p where "p = joinWith ''/'' segs"
  have v: "\<forall>s \<in> set segs. vaultSeg s" using assms(2) cleanSeg_vaultSeg by blast
  have w: "normalizeWindowsPath p = p"
    unfolding p_def using vault_path_chars[OF v] by (intro normalizeWindowsPath_id)
  have a: "\<not> isAbsolute p" unfolding p_def using vault_path_ends(4)[OF assms(1) v] .
  have sp: "splitOn CHR ''/'' p = segs" unfolding p_def using assms(1) v by (rule vault_split)
  have "resolveSegs cwd p = normSegs False [] (cwd @ segs)"
    using w a sp by (simp add: resolveSegs_def Let_def)
  also have "\<dots> = normSegs False (normSegs False [] cwd) segs" by (rule normSegs_append)
  also have "\<dots> = normSegs False [] cwd @ segs" using assms(2) by (rule normSegs_clean)
  finally show ?thesis unfolding p_def .
qed

lemma dotdot_vaultSeg: "vaultSeg ''..''"
  by (simp add: vaultSeg_def backslash_def)

text \<open>
  The round trip for two paths given by clean segments, the first with a directory
  part, where the second is not a directory above the first.
\<close>

lemma relative_roundtrip:
  assumes A: "\<forall>s \<in> set SA. cleanSeg s" and B: "\<forall>s \<in> set SB. cleanSeg s"
    and lenA: "2 \<le> length SA" and neB: "SB \<noteq> []"
    and notin: "last SB \<notin> set (butlast SA)"
  shows "join [dirname (joinWith ''/'' SA),
               getRelativePath cwd (joinWith ''/'' SA) (joinWith ''/'' SB)]
         = joinWith ''/'' SB"
proof -
  define D where "D = butlast SA"
  have Dne: "D \<noteq> []" unfolding D_def using lenA by (cases SA; cases "tl SA") auto
  have Dclean: "\<forall>s \<in> set D. cleanSeg s" unfolding D_def using A by (auto dest: in_set_butlastD)
  have dir: "dirname (joinWith ''/'' SA) = joinWith ''/'' D"
    unfolding D_def using A lenA by (rule dirname_clean)
  obtain f t where ft: "dropCommon D SB = (f, t)" by (cases "dropCommon D SB")
  then obtain c where c: "D = c @ f" "SB = c @ t" using dropCommon_split by blast
  have tne: "t \<noteq> []"
  proof
    assume "t = []"
    then have "SB = c" using c(2) by simp
    then have "last SB \<in> set D" using c(1) neB by auto
    then show False using notin by (simp add: D_def)
  qed
  define R where "R = map (\<lambda>_. ''..'') f @ t"
  have Rrep: "R = replicate (length f) ''..'' @ t" by (simp add: R_def map_replicate_const)
  have Rne: "R \<noteq> []" using tne by (simp add: R_def)
  have tclean: "\<forall>s \<in> set t. cleanSeg s" using B c(2) by auto
  have fclean: "\<forall>s \<in> set f. cleanSeg s" using Dclean c(1) by auto
  have Rv: "\<forall>s \<in> set R. vaultSeg s"
    using tclean cleanSeg_vaultSeg dotdot_vaultSeg by (auto simp: R_def)
  have rel0: "relative cwd (joinWith ''/'' D) (joinWith ''/'' SB) = joinWith ''/'' R"
  proof -
    have "resolveSegs cwd (joinWith ''/'' D) = normSegs False [] cwd @ D"
      using Dne Dclean by (rule resolveSegs_clean)
    moreover have "resolveSegs cwd (joinWith ''/'' SB) = normSegs False [] cwd @ SB"
      using neB B by (rule resolveSegs_clean)
    ultimately show ?thesis by (simp add: relative_def dropCommon_prefix ft R_def)
  qed
  have nobs: "backslash \<notin> set (joinWith ''/'' R)" using vault_path_chars(1)[OF Rv] .
  then have "map (\<lambda>c. if c = backslash then CHR ''/'' else c) (joinWith ''/'' R) = joinWith ''/'' R"
    by (intro map_idI) auto
  then have rel: "getRelativePath cwd (joinWith ''/'' SA) (joinWith ''/'' SB) = joinWith ''/'' R"
    by (simp add: getRelativePath_def Let_def dir rel0)
  define q where "q = joinWith ''/'' (D @ R)"
  have DRv: "\<forall>s \<in> set (D @ R). vaultSeg s" using Dclean cleanSeg_vaultSeg Rv by auto
  have DRne: "D @ R \<noteq> []" using Dne by simp
  have Dv: "\<forall>s \<in> set D. vaultSeg s" using Dclean cleanSeg_vaultSeg by blast
  have dne: "joinWith ''/'' D \<noteq> []" and dlast: "last (joinWith ''/'' D) \<noteq> CHR ''/''"
    using vault_path_ends[OF Dne Dv] by blast+
  have rne: "joinWith ''/'' R \<noteq> []" and rhd: "hd (joinWith ''/'' R) \<noteq> CHR ''/''"
    using vault_path_ends[OF Rne Rv] by blast+
  have "joinLoop [] [joinWith ''/'' D, joinWith ''/'' R] = joinWith ''/'' D @ ''/'' @ joinWith ''/'' R"
    using dne dlast rne rhd by (simp add: Let_def)
  also have "\<dots> = q" unfolding q_def using Dne Rne by (simp add: joinWith_append)
  finally have jl: "joinLoop [] [joinWith ''/'' D, joinWith ''/'' R] = q" .
  have qne: "q \<noteq> []" and qhd: "hd q \<noteq> CHR ''/''" and qlast: "last q \<noteq> CHR ''/''"
    unfolding q_def using vault_path_ends[OF DRne DRv] by blast+
  have qch: "backslash \<notin> set q" "CHR '':'' \<notin> set q"
    unfolding q_def using vault_path_chars[OF DRv] by blast+
  have "\<forall>x \<in> set (D @ R). CHR ''/'' \<notin> set x" using DRv unfolding vaultSeg_def by blast
  then have "segments q = filter (\<lambda>x. x \<noteq> []) (D @ R)" unfolding q_def by (rule segments_joinWith)
  moreover have "\<forall>x \<in> set (D @ R). x \<noteq> []" using DRv unfolding vaultSeg_def by blast
  ultimately have seg: "segments q = D @ R" by (simp only: filter_True)
  have "normSegs True [] (D @ R) = normSegs True (normSegs True [] D) R" by (rule normSegs_append)
  also have "normSegs True [] D = [] @ D" using Dclean by (rule normSegs_clean)
  also have "normSegs True ([] @ D) R = normSegs True (c @ f) (replicate (length f) ''..'' @ t)"
    by (simp add: c(1) Rrep)
  also have "\<dots> = normSegs True c t" using fclean by (rule normSegs_up)
  also have "\<dots> = c @ t" using tclean by (rule normSegs_clean)
  finally have norm: "normSegs True [] (segments q) = SB" by (simp add: seg c(2))
  have Bv: "\<forall>s \<in> set SB. vaultSeg s" using B cleanSeg_vaultSeg by blast
  have bne: "joinWith ''/'' SB \<noteq> []" using vault_path_ends(1)[OF neB Bv] .
  have "normalize q = joinWith ''/'' SB"
    using qne qch qhd qlast norm bne by (rule normalize_relative)
  then show ?thesis by (simp only: join_def dir rel jl)
qed

lemma outputSegments_shape:
  "2 \<le> length (outputSegments ext p)" "outputSegments ext p \<noteq> []"
  "last (outputSegments ext p) = outputName ext p @ ''.html''"
  "\<forall>s \<in> set (butlast (outputSegments ext p)). CHR ''.'' \<notin> set s"
proof -
  show "2 \<le> length (outputSegments ext p)" "outputSegments ext p \<noteq> []"
    "last (outputSegments ext p) = outputName ext p @ ''.html''"
    by (simp_all add: outputSegments_def)
  have b: "butlast (outputSegments ext p)
      = [''obsidian-foursg'', ''site'']
        @ filter (\<lambda>s. s \<noteq> []) (map (sanitizeFilename ext) (splitOn CHR ''/'' (dirname p)))"
    by (simp add: outputSegments_def butlast_append)
  show "\<forall>s \<in> set (butlast (outputSegments ext p)). CHR ''.'' \<notin> set s"
  proof
    fix s assume "s \<in> set (butlast (outputSegments ext p))"
    then consider "s = ''obsidian-foursg''" | "s = ''site''" | x where "s = sanitizeFilename ext x"
      unfolding b by auto
    then show "CHR ''.'' \<notin> set s"
    proof cases
      case 1
      then show ?thesis by simp
    next
      case 2
      then show ?thesis by simp
    next
      case 3
      then show ?thesis using sanitizeFilename_plain by blast
    qed
  qed
qed

text \<open>The round trip between the output paths of any two document paths.\<close>

lemma getRelativePath_roundtrip:
  "join [dirname (getOutputPath ext a), getRelativePath cwd (getOutputPath ext a) (getOutputPath ext b)]
   = getOutputPath ext b"
proof -
  have "CHR ''.'' \<in> set (last (outputSegments ext b))"
    by (simp add: outputSegments_shape(3))
  then have "last (outputSegments ext b) \<notin> set (butlast (outputSegments ext a))"
    using outputSegments_shape(4) by blast
  then have "join [dirname (joinWith ''/'' (outputSegments ext a)),
               getRelativePath cwd (joinWith ''/'' (outputSegments ext a))
                 (joinWith ''/'' (outputSegments ext b))]
         = joinWith ''/'' (outputSegments ext b)"
    using outputSegments_clean outputSegments_clean outputSegments_shape(1,2)
    by (intro relative_roundtrip)
  then show ?thesis by (simp only: getOutputPath_segments)
qed

section \<open>Scanning for markers\<close>

lemma takeWhile_stop: "x \<notin> set xs \<Longrightarrow> takeWhile (\<lambda>c. c \<noteq> x) (xs @ x # ys) = xs"
  by (induction xs) auto

lemma dropWhile_stop: "x \<notin> set xs \<Longrightarrow> dropWhile (\<lambda>c. c \<noteq> x) (xs @ x # ys) = x # ys"
  by (induction xs) auto

lemma matchBrackets_marker:
  assumes "inner \<noteq> []" "CHR '']'' \<notin> set inner"
  shows "matchBrackets (''[['' @ inner @ '']]'' @ post) = Some (inner, post)"
proof -
  have t: "takeWhile (\<lambda>c. c \<noteq> CHR '']'') (inner @ '']]'' @ post) = inner"
    using takeWhile_stop[OF assms(2)] by simp
  have d: "dropWhile (\<lambda>c. c \<noteq> CHR '']'') (inner @ '']]'' @ post) = '']]'' @ post"
    using dropWhile_stop[OF assms(2)] by simp
  show ?thesis using assms(1) t d by (simp add: matchBrackets_def startsWith_def)
qed

lemma matchBrackets_no_bracket: "s = [] \<or> hd s \<noteq> CHR ''['' \<Longrightarrow> matchBrackets s = None"
  by (cases s) (auto simp: matchBrackets_def startsWith_def)

lemma matchBrackets_one_bracket:
  "s = [] \<or> hd s \<noteq> CHR ''['' \<Longrightarrow> matchBrackets (CHR ''['' # s) = None"
  by (cases s) (auto simp: matchBrackets_def startsWith_def)

text \<open>
  A match that starts in a text without \<open>]\<close> and runs into \<open>](\<close> is no match: after
  the captured text the pattern wants two closing brackets.
\<close>

lemma matchBrackets_link_tail:
  assumes "CHR '']'' \<notin> set vs"
  shows "matchBrackets (vs @ '']('' @ rest) = None"
proof (cases "startsWith (vs @ '']('' @ rest) ''[[''")
  case False
  then show ?thesis by (simp add: matchBrackets_def)
next
  case True
  then obtain ws where vs: "vs = ''[['' @ ws"
    by (cases vs; cases "tl vs") (auto simp: startsWith_def)
  then have w: "CHR '']'' \<notin> set ws" using assms by simp
  have t: "dropWhile (\<lambda>c. c \<noteq> CHR '']'') (ws @ '']('' @ rest) = '']('' @ rest"
    using dropWhile_stop[OF w] by simp
  show ?thesis using t by (simp add: matchBrackets_def vs startsWith_def)
qed

lemma replaceWikiLinks_skip:
  "CHR ''['' \<notin> set xs \<Longrightarrow>
   replaceWikiLinks f b (xs @ rest)
     = xs @ replaceWikiLinks f (if xs = [] then b else last xs = CHR ''!'') rest"
proof (induction xs arbitrary: b)
  case Nil
  then show ?case by simp
next
  case (Cons c cs)
  have "matchBrackets (c # cs @ rest) = None"
    using Cons.prems by (intro matchBrackets_no_bracket) auto
  then have "replaceWikiLinks f b ((c # cs) @ rest)
      = c # replaceWikiLinks f (c = CHR ''!'') (cs @ rest)"
    by simp
  then show ?case using Cons by simp
qed

lemma replaceWikiLinks_first:
  assumes "CHR ''['' \<notin> set pre" "pre = [] \<or> last pre \<noteq> CHR ''!''"
    and "inner \<noteq> []" "CHR '']'' \<notin> set inner"
  shows "replaceWikiLinks f False (pre @ ''[['' @ inner @ '']]'' @ post)
         = pre @ f inner @ replaceWikiLinks f False post"
proof -
  have b: "(if pre = [] then False else last pre = CHR ''!'') = False" using assms(2) by auto
  have m: "matchBrackets (CHR ''['' # CHR ''['' # inner @ '']]'' @ post) = Some (inner, post)"
    using matchBrackets_marker[OF assms(3,4), of post] by simp
  have "replaceWikiLinks f False (''[['' @ inner @ '']]'' @ post)
        = f inner @ replaceWikiLinks f False post"
    using m by simp
  then show ?thesis using replaceWikiLinks_skip[OF assms(1), of f False] b by simp
qed

text \<open>An image embed whose path has no opening bracket is left alone by the first pass.\<close>

lemma replaceWikiLinks_embed:
  assumes "CHR ''['' \<notin> set pre" "CHR ''['' \<notin> set p" "CHR '']'' \<notin> set p"
  shows "replaceWikiLinks f False (pre @ ''![['' @ p @ '']]'' @ post)
         = pre @ ''![['' @ p @ '']]'' @ replaceWikiLinks f False post"
proof -
  have 1: "CHR ''['' \<notin> set (pre @ ''!'')" using assms(1) by simp
  have s1: "replaceWikiLinks f False ((pre @ ''!'') @ ''[['' @ p @ '']]'' @ post)
            = (pre @ ''!'') @ replaceWikiLinks f True (''[['' @ p @ '']]'' @ post)"
    using replaceWikiLinks_skip[OF 1, of f False] by simp
  have m: "matchBrackets (CHR ''['' # p @ '']]'' @ post) = None"
    using assms(2) by (intro matchBrackets_one_bracket) (cases p, auto)
  have s2: "replaceWikiLinks f True (''[['' @ p @ '']]'' @ post)
            = ''[['' @ replaceWikiLinks f False (p @ '']]'' @ post)"
    using m by simp
  have 3: "CHR ''['' \<notin> set (p @ '']]'')" using assms(2) by simp
  have s3: "replaceWikiLinks f False ((p @ '']]'') @ post)
            = (p @ '']]'') @ replaceWikiLinks f False post"
    using replaceWikiLinks_skip[OF 3, of f False post] by simp
  show ?thesis using s1 s2 s3 by simp
qed

lemma replaceImageEmbeds_skip:
  "(\<And>us vs. xs = us @ CHR ''!'' # vs \<Longrightarrow> matchBrackets (vs @ rest) = None) \<Longrightarrow>
   replaceImageEmbeds f (xs @ rest) = xs @ replaceImageEmbeds f rest"
proof (induction xs)
  case Nil
  then show ?case by simp
next
  case (Cons c cs)
  have tail: "\<And>us vs. cs = us @ CHR ''!'' # vs \<Longrightarrow> matchBrackets (vs @ rest) = None"
  proof -
    fix us vs assume "cs = us @ CHR ''!'' # vs"
    then have "c # cs = (c # us) @ CHR ''!'' # vs" by simp
    then show "matchBrackets (vs @ rest) = None" by (rule Cons.prems)
  qed
  have head: "c = CHR ''!'' \<Longrightarrow> matchBrackets (cs @ rest) = None"
    using Cons.prems[of "[]" cs] by simp
  have "replaceImageEmbeds f ((c # cs) @ rest) = c # replaceImageEmbeds f (cs @ rest)"
    using head by simp
  then show ?case using Cons.IH[OF tail] by simp
qed

lemma replaceImageEmbeds_skip_plain:
  "CHR ''!'' \<notin> set xs \<Longrightarrow> replaceImageEmbeds f (xs @ rest) = xs @ replaceImageEmbeds f rest"
proof (rule replaceImageEmbeds_skip)
  fix us vs assume "CHR ''!'' \<notin> set xs" "xs = us @ CHR ''!'' # vs"
  then have False by auto
  then show "matchBrackets (vs @ rest) = None" ..
qed

lemma replaceImageEmbeds_skip_no_bracket:
  assumes "CHR ''['' \<notin> set xs" "xs = [] \<or> last xs \<noteq> CHR ''!''"
  shows "replaceImageEmbeds f (xs @ rest) = xs @ replaceImageEmbeds f rest"
proof (rule replaceImageEmbeds_skip)
  fix us vs assume x: "xs = us @ CHR ''!'' # vs"
  then have "vs \<noteq> []" using assms(2) by auto
  moreover have "hd vs \<in> set xs" using x calculation by (cases vs) auto
  ultimately have "hd (vs @ rest) \<noteq> CHR ''[''" using assms(1) by (cases vs) auto
  then show "matchBrackets (vs @ rest) = None" by (intro matchBrackets_no_bracket) simp
qed

lemma replaceImageEmbeds_skip_label:
  assumes "CHR '']'' \<notin> set xs"
  shows "replaceImageEmbeds f (xs @ '']('' @ rest) = xs @ replaceImageEmbeds f ('']('' @ rest)"
proof (rule replaceImageEmbeds_skip)
  fix us vs assume "xs = us @ CHR ''!'' # vs"
  then have "CHR '']'' \<notin> set vs" using assms by auto
  then show "matchBrackets (vs @ '']('' @ rest) = None" by (rule matchBrackets_link_tail)
qed

lemma replaceImageEmbeds_first:
  assumes "CHR ''['' \<notin> set pre" "p \<noteq> []" "CHR '']'' \<notin> set p"
  shows "replaceImageEmbeds f (pre @ ''![['' @ p @ '']]'' @ post)
         = pre @ f p @ replaceImageEmbeds f post"
proof -
  have skip: "replaceImageEmbeds f (pre @ ''![['' @ p @ '']]'' @ post)
              = pre @ replaceImageEmbeds f (''![['' @ p @ '']]'' @ post)"
  proof (rule replaceImageEmbeds_skip)
    fix us vs assume x: "pre = us @ CHR ''!'' # vs"
    have "hd (vs @ ''![['' @ p @ '']]'' @ post) \<noteq> CHR ''[''"
      using x assms(1) by (cases vs) auto
    then show "matchBrackets (vs @ ''![['' @ p @ '']]'' @ post) = None"
      by (intro matchBrackets_no_bracket) simp
  qed
  have m: "matchBrackets (CHR ''['' # CHR ''['' # p @ '']]'' @ post) = Some (p, post)"
    using matchBrackets_marker[OF assms(2,3), of post] by simp
  have "replaceImageEmbeds f (''![['' @ p @ '']]'' @ post) = f p @ replaceImageEmbeds f post"
    using m by simp
  then show ?thesis using skip by simp
qed

section \<open>The text and the label of a reference\<close>

lemma wiki_no_label:
  "CHR ''|'' \<notin> set target \<Longrightarrow> wikiLink target = trim target \<and> wikiDisplayText target = trim target"
  by (simp add: wikiLink_def wikiDisplayText_def splitOn_no_sep)

lemma wiki_label:
  assumes "CHR ''|'' \<notin> set target" "CHR ''|'' \<notin> set label" "label \<noteq> []"
  shows "wikiLink (target @ ''|'' @ label) = trim target \<and>
         wikiDisplayText (target @ ''|'' @ label) = trim label"
proof -
  have "splitOn CHR ''|'' (target @ CHR ''|'' # label) = splitOn CHR ''|'' target @ splitOn CHR ''|'' label"
    by (rule splitOn_append_sep)
  then have "splitOn CHR ''|'' (target @ ''|'' @ label) = [target, label]"
    using assms(1,2) by (simp add: splitOn_no_sep)
  then show ?thesis using assms(3) by (simp add: wikiLink_def wikiDisplayText_def)
qed

lemma set_splitOn: "x \<in> set (splitOn d s) \<Longrightarrow> set x \<subseteq> set s"
proof (induction s arbitrary: x)
  case Nil
  then show ?case by simp
next
  case (Cons c cs)
  obtain w ws where w: "splitOn d cs = w # ws"
    using splitOn_nonempty[of d cs] by (cases "splitOn d cs") auto
  show ?case
  proof (cases "c = d")
    case True
    then have "x = [] \<or> x \<in> set (splitOn d cs)" using Cons.prems by auto
    then show ?thesis using Cons.IH by auto
  next
    case False
    then have "x = c # w \<or> x \<in> set ws" using Cons.prems w by auto
    moreover have "set w \<subseteq> set cs" using Cons.IH[of w] w by simp
    moreover have "\<And>y. y \<in> set ws \<Longrightarrow> set y \<subseteq> set cs" using Cons.IH w by simp
    ultimately show ?thesis by auto
  qed
qed

lemma wikiDisplayText_chars: "set (wikiDisplayText linkText) \<subseteq> set linkText"
proof -
  define parts where "parts = splitOn CHR ''|'' linkText"
  have ne: "parts \<noteq> []" unfolding parts_def by (rule splitOn_nonempty)
  have el: "\<And>x. x \<in> set parts \<Longrightarrow> set (trim x) \<subseteq> set linkText"
    unfolding parts_def using set_splitOn set_trim by (meson subset_trans)
  have "hd parts \<in> set parts" using ne by simp
  then have 1: "set (trim (hd parts)) \<subseteq> set linkText" by (rule el)
  have "1 < length parts \<Longrightarrow> parts ! 1 \<in> set parts" by (rule nth_mem)
  then have 2: "1 < length parts \<Longrightarrow> set (trim (parts ! 1)) \<subseteq> set linkText" using el by blast
  show ?thesis
    using 1 2 unfolding wikiDisplayText_def wikiLink_def parts_def[symmetric] Let_def by auto
qed


section \<open>Markers in any text\<close>

lemma startsWith_two: "startsWith s ''[['' = (\<exists>t. s = ''[['' @ t)"
proof
  assume "startsWith s ''[[''"
  then have "s = ''[['' @ drop 2 s"
    by (cases s; cases "tl s") (auto simp: startsWith_def)
  then show "\<exists>t. s = ''[['' @ t" ..
next
  assume "\<exists>t. s = ''[['' @ t"
  then show "startsWith s ''[[''" by (auto simp: startsWith_def)
qed

lemma matchBrackets_not_started: "\<not> startsWith s ''[['' \<Longrightarrow> matchBrackets s = None"
  by (simp add: matchBrackets_def)

lemma matchBrackets_unclosed: "CHR '']'' \<notin> set t \<Longrightarrow> matchBrackets (''[['' @ t) = None"
proof -
  assume "CHR '']'' \<notin> set t"
  then have "\<forall>c \<in> set t. c \<noteq> CHR '']''" by auto
  then have d: "dropWhile (\<lambda>c. c \<noteq> CHR '']'') t = []" by simp
  have "drop 2 (''[['' @ t) = t" by simp
  then show ?thesis unfolding matchBrackets_def Let_def d by (simp add: startsWith_def d)
qed

lemma matchBrackets_closed:
  assumes "CHR '']'' \<notin> set y"
  shows "matchBrackets (''[['' @ y @ CHR '']'' # t)
         = (if y \<noteq> [] \<and> startsWith t '']'' then Some (y, drop 1 t) else None)"
proof -
  have 1: "takeWhile (\<lambda>c. c \<noteq> CHR '']'') (y @ CHR '']'' # t) = y"
    using assms by (rule takeWhile_stop)
  have 2: "dropWhile (\<lambda>c. c \<noteq> CHR '']'') (y @ CHR '']'' # t) = CHR '']'' # t"
    using assms by (rule dropWhile_stop)
  have 3: "startsWith (CHR '']'' # t) '']]'' = startsWith t '']''"
    by (cases t) (auto simp: startsWith_def)
  show ?thesis using 1 2 3 by (simp add: matchBrackets_def startsWith_def)
qed

lemma matchBrackets_shape:
  "matchBrackets s = Some (inner, rest) \<Longrightarrow>
   s = ''[['' @ inner @ '']]'' @ rest \<and> inner \<noteq> [] \<and> CHR '']'' \<notin> set inner"
proof -
  assume m: "matchBrackets s = Some (inner, rest)"
  then have "startsWith s ''[[''" by (auto simp: matchBrackets_def split: if_splits)
  then obtain t where s: "s = ''[['' @ t" unfolding startsWith_two by blast
  have "CHR '']'' \<in> set t"
  proof (rule ccontr)
    assume "CHR '']'' \<notin> set t"
    then have "matchBrackets (''[['' @ t) = None" by (rule matchBrackets_unclosed)
    then show False using m s by simp
  qed
  then obtain y u where t: "t = y @ CHR '']'' # u" "CHR '']'' \<notin> set y"
    by (meson split_list_first)
  have c: "matchBrackets s
         = (if y \<noteq> [] \<and> startsWith u '']'' then Some (y, drop 1 u) else None)"
    unfolding s t(1) using t(2) by (rule matchBrackets_closed)
  then have y: "y \<noteq> []" "startsWith u '']''" "inner = y" "rest = drop 1 u"
    using m by (auto split: if_splits)
  have "u = CHR '']'' # drop 1 u" using y(2) by (cases u) (auto simp: startsWith_def)
  then have "s = ''[['' @ y @ '']]'' @ drop 1 u" using s t(1) by simp
  then show ?thesis using y t(2) by simp
qed

text \<open>
  A match is not changed by text appended to the string when the string closes its
  opening before its end, or at its end with the appended text not going on with \<open>]\<close>.
\<close>

lemma matchBrackets_append_closed:
  assumes x: "x = ''[['' @ y @ CHR '']'' # t" "CHR '']'' \<notin> set y"
    and R: "t \<noteq> [] \<or> \<not> startsWith R '']''"
  shows "matchBrackets (x @ R) = extendRest R (matchBrackets x)"
proof -
  have a: "matchBrackets (x @ R)
         = (if y \<noteq> [] \<and> startsWith (t @ R) '']'' then Some (y, drop 1 (t @ R)) else None)"
    using matchBrackets_closed[OF x(2), of "t @ R"] x(1) by simp
  have b: "matchBrackets x
         = (if y \<noteq> [] \<and> startsWith t '']'' then Some (y, drop 1 t) else None)"
    unfolding x(1) using x(2) by (rule matchBrackets_closed)
  show ?thesis
  proof (cases t)
    case Nil
    then have "\<not> startsWith R '']''" using R by simp
    then show ?thesis using a b Nil by (simp add: extendRest_def startsWith_def)
  next
    case (Cons c cs)
    then show ?thesis using a b by (simp add: extendRest_def startsWith_def)
  qed
qed

lemma matchBrackets_append_plain:
  assumes "CHR '']'' \<notin> set R"
  shows "matchBrackets (x @ R) = extendRest R (matchBrackets x)"
proof (cases "startsWith (x @ R) ''[[''")
  case False
  then have "\<not> startsWith x ''[[''" unfolding startsWith_two by auto
  then show ?thesis using False by (simp add: matchBrackets_not_started extendRest_def)
next
  case True
  then obtain t where t: "x @ R = ''[['' @ t" unfolding startsWith_two by blast
  show ?thesis
  proof (cases "CHR '']'' \<in> set x")
    case False
    then have "CHR '']'' \<notin> set (x @ R)" using assms by simp
    then have "CHR '']'' \<notin> set t" unfolding t by simp
    then have 1: "matchBrackets (x @ R) = None" unfolding t by (rule matchBrackets_unclosed)
    have 2: "matchBrackets x = None"
    proof (cases "startsWith x ''[[''")
      case True
      then obtain u where "x = ''[['' @ u" unfolding startsWith_two by blast
      moreover from this have "CHR '']'' \<notin> set u" using False by simp
      ultimately show ?thesis using matchBrackets_unclosed by simp
    next
      case False
      then show ?thesis by (rule matchBrackets_not_started)
    qed
    show ?thesis using 1 2 by (simp add: extendRest_def)
  next
    case inx: True
    have sx: "startsWith x ''[[''"
    proof -
      have "2 \<le> length x"
      proof (cases x)
        case Nil
        then show ?thesis using inx by simp
      next
        case (Cons c cs)
        show ?thesis
        proof (cases cs)
          case Nil
          then have "c = CHR '']''" using inx Cons by simp
          moreover have "c = CHR ''[''" using t Cons by simp
          ultimately show ?thesis by simp
        next
          case (Cons d ds)
          then show ?thesis using \<open>x = c # cs\<close> by simp
        qed
      qed
      then have "take 2 x = take 2 (x @ R)" by simp
      also have "\<dots> = ''[[''" unfolding t by simp
      finally have "take (length ''[['') x = ''[[''" by (simp add: numeral_2_eq_2)
      then show ?thesis unfolding startsWith_def .
    qed
    then obtain u where u: "x = ''[['' @ u" unfolding startsWith_two by blast
    then have "CHR '']'' \<in> set u" using inx by simp
    then obtain y v where v: "u = y @ CHR '']'' # v" "CHR '']'' \<notin> set y"
      by (meson split_list_first)
    have "x = ''[['' @ y @ CHR '']'' # v" using u v(1) by simp
    moreover have "v \<noteq> [] \<or> \<not> startsWith R '']''"
      using assms by (cases R) (auto simp: startsWith_def)
    ultimately show ?thesis using v(2) by (intro matchBrackets_append_closed)
  qed
qed

lemma startsWith_append_two:
  "startsWith (x @ R) ''[['' =
     (startsWith x ''[['' \<or> (x = ''['' \<and> startsWith R ''['') \<or> (x = [] \<and> startsWith R ''[[''))"
proof (cases x)
  case Nil
  then show ?thesis by (simp add: startsWith_def)
next
  case (Cons c cs)
  show ?thesis
  proof (cases cs)
    case Nil
    then show ?thesis using Cons by (cases R) (auto simp: startsWith_def)
  next
    case (Cons d ds)
    then show ?thesis using \<open>x = c # cs\<close> by (simp add: startsWith_def)
  qed
qed

lemma matchBrackets_plain: "CHR '']'' \<notin> set s \<Longrightarrow> matchBrackets s = None"
proof (cases "startsWith s ''[[''")
  case True
  assume n: "CHR '']'' \<notin> set s"
  from True obtain t where t: "s = ''[['' @ t" unfolding startsWith_two by blast
  then have "CHR '']'' \<notin> set t" using n by simp
  then show ?thesis unfolding t by (rule matchBrackets_unclosed)
next
  case False
  then show ?thesis by (rule matchBrackets_not_started)
qed

text \<open>The passes distribute over a text and what follows it, when no match spans the two.\<close>

lemma replaceWikiLinks_append:
  assumes "\<And>u x. pre = u @ x \<Longrightarrow> x \<noteq> [] \<Longrightarrow> \<not> bangEnd b u \<Longrightarrow>
                matchBrackets (x @ R) = extendRest R (matchBrackets x)"
  shows "replaceWikiLinks f b (pre @ R)
         = replaceWikiLinks f b pre @ replaceWikiLinks f (bangEnd b pre) R"
  using assms
proof (induction "length pre" arbitrary: pre b rule: less_induct)
  case less
  show ?case
  proof (cases pre)
    case Nil
    then show ?thesis by (simp add: bangEnd_def)
  next
    case (Cons c cs)
    define m where "m = (if b then None else matchBrackets (c # cs))"
    have mR: "(if b then None else matchBrackets (c # cs @ R)) = extendRest R m"
    proof (cases b)
      case True
      then show ?thesis by (simp add: m_def extendRest_def)
    next
      case False
      then have "\<not> bangEnd b []" by (simp add: bangEnd_def)
      then have "matchBrackets ((c # cs) @ R) = extendRest R (matchBrackets (c # cs))"
        using less.prems[of "[]" "c # cs"] Cons by simp
      then show ?thesis using False by (simp add: m_def)
    qed
    show ?thesis
    proof (cases m)
      case None
      have step: "replaceWikiLinks f b (c # cs) = c # replaceWikiLinks f (c = CHR ''!'') cs"
        using None unfolding m_def by simp
      have stepR: "replaceWikiLinks f b (c # cs @ R) = c # replaceWikiLinks f (c = CHR ''!'') (cs @ R)"
        using mR None by (simp add: extendRest_def)
      have IH: "replaceWikiLinks f (c = CHR ''!'') (cs @ R)
                = replaceWikiLinks f (c = CHR ''!'') cs
                  @ replaceWikiLinks f (bangEnd (c = CHR ''!'') cs) R"
      proof (rule less.hyps)
        show "length cs < length pre" using Cons by simp
        fix u x assume a: "cs = u @ x" "x \<noteq> []" "\<not> bangEnd (c = CHR ''!'') u"
        have "pre = (c # u) @ x" using Cons a(1) by simp
        moreover have "\<not> bangEnd b (c # u)" using a(3) by (auto simp: bangEnd_def)
        ultimately show "matchBrackets (x @ R) = extendRest R (matchBrackets x)"
          using a(2) by (intro less.prems)
      qed
      have "bangEnd b pre = bangEnd (c = CHR ''!'') cs" using Cons by (simp add: bangEnd_def)
      then show ?thesis using step stepR IH Cons by simp
    next
      case (Some ir)
      obtain i r where ir: "ir = (i, r)" by (cases ir)
      have nb: "\<not> b" and mb: "matchBrackets (c # cs) = Some (i, r)"
        using Some ir unfolding m_def by (auto split: if_splits)
      define w where "w = ''[['' @ i @ '']]''"
      have pw: "pre = w @ r" using matchBrackets_shape[OF mb] Cons by (simp add: w_def)
      have lw: "w \<noteq> []" "last w = CHR '']''" by (simp_all add: w_def)
      have step: "replaceWikiLinks f b (c # cs) = f i @ replaceWikiLinks f False r"
        using nb mb by simp
      have stepR: "replaceWikiLinks f b (c # cs @ R) = f i @ replaceWikiLinks f False (r @ R)"
        using mR Some ir by (simp add: extendRest_def)
      have IH: "replaceWikiLinks f False (r @ R)
                = replaceWikiLinks f False r @ replaceWikiLinks f (bangEnd False r) R"
      proof (rule less.hyps)
        show "length r < length pre" using pw by (simp add: w_def)
        fix u x assume a: "r = u @ x" "x \<noteq> []" "\<not> bangEnd False u"
        have "pre = (w @ u) @ x" using pw a(1) by simp
        moreover have "\<not> bangEnd b (w @ u)"
          using a(3) lw by (cases "u = []") (simp_all add: bangEnd_def)
        ultimately show "matchBrackets (x @ R) = extendRest R (matchBrackets x)"
          using a(2) by (intro less.prems)
      qed
      have "bangEnd b pre = bangEnd False r"
        unfolding pw using lw by (cases "r = []") (simp_all add: bangEnd_def)
      then show ?thesis using step stepR IH Cons by simp
    qed
  qed
qed

lemma replaceImageEmbeds_append:
  assumes "\<And>u cs. pre = u @ CHR ''!'' # cs \<Longrightarrow>
                matchBrackets (cs @ R) = extendRest R (matchBrackets cs)"
  shows "replaceImageEmbeds f (pre @ R) = replaceImageEmbeds f pre @ replaceImageEmbeds f R"
  using assms
proof (induction "length pre" arbitrary: pre rule: less_induct)
  case less
  show ?case
  proof (cases pre)
    case Nil
    then show ?thesis by simp
  next
    case (Cons c cs)
    define m where "m = (if c = CHR ''!'' then matchBrackets cs else None)"
    have mR: "(if c = CHR ''!'' then matchBrackets (cs @ R) else None) = extendRest R m"
    proof (cases "c = CHR ''!''")
      case False
      then show ?thesis by (simp add: m_def extendRest_def)
    next
      case True
      then have "pre = [] @ CHR ''!'' # cs" using Cons by simp
      then have "matchBrackets (cs @ R) = extendRest R (matchBrackets cs)" by (rule less.prems)
      then show ?thesis using True by (simp add: m_def)
    qed
    show ?thesis
    proof (cases m)
      case None
      have step: "replaceImageEmbeds f (c # cs) = c # replaceImageEmbeds f cs"
        using None unfolding m_def by simp
      have stepR: "replaceImageEmbeds f (c # cs @ R) = c # replaceImageEmbeds f (cs @ R)"
        using mR None by (simp add: extendRest_def)
      have IH: "replaceImageEmbeds f (cs @ R) = replaceImageEmbeds f cs @ replaceImageEmbeds f R"
      proof (rule less.hyps)
        show "length cs < length pre" using Cons by simp
        fix u ds assume "cs = u @ CHR ''!'' # ds"
        then have "pre = (c # u) @ CHR ''!'' # ds" using Cons by simp
        then show "matchBrackets (ds @ R) = extendRest R (matchBrackets ds)" by (rule less.prems)
      qed
      show ?thesis using step stepR IH Cons by simp
    next
      case (Some ir)
      obtain i r where ir: "ir = (i, r)" by (cases ir)
      have cb: "c = CHR ''!''" and mb: "matchBrackets cs = Some (i, r)"
        using Some ir unfolding m_def by (auto split: if_splits)
      define w where "w = CHR ''!'' # ''[['' @ i @ '']]''"
      have pw: "pre = w @ r" using matchBrackets_shape[OF mb] Cons cb by (simp add: w_def)
      have step: "replaceImageEmbeds f (c # cs) = f i @ replaceImageEmbeds f r"
        using cb mb by simp
      have stepR: "replaceImageEmbeds f (c # cs @ R) = f i @ replaceImageEmbeds f (r @ R)"
        using mR Some ir by (simp add: extendRest_def)
      have IH: "replaceImageEmbeds f (r @ R) = replaceImageEmbeds f r @ replaceImageEmbeds f R"
      proof (rule less.hyps)
        show "length r < length pre" using pw by (simp add: w_def)
        fix u ds assume "r = u @ CHR ''!'' # ds"
        then have "pre = (w @ u) @ CHR ''!'' # ds" using pw by simp
        then show "matchBrackets (ds @ R) = extendRest R (matchBrackets ds)" by (rule less.prems)
      qed
      show ?thesis using step stepR IH Cons by simp
    qed
  qed
qed

lemma openLink_append: "\<not> bangEnd b u \<Longrightarrow> opensLink x \<Longrightarrow> openLink b (u @ x)"
proof (induction u arbitrary: b)
  case Nil
  then have nb: "\<not> b" by (simp add: bangEnd_def)
  obtain c cs where x: "x = c # cs"
    using Nil.prems(2) by (cases x) (auto simp: opensLink_def startsWith_def)
  show ?case using nb Nil.prems(2) unfolding x by simp
next
  case (Cons c u)
  have "\<not> bangEnd (c = CHR ''!'') u"
    using Cons.prems(1) by (cases "u = []") (simp_all add: bangEnd_def)
  then have "openLink (c = CHR ''!'') (u @ x)" using Cons.prems(2) by (rule Cons.IH)
  then show ?case by simp
qed

lemma openEmbed_append:
  "startsWith cs ''[['' \<Longrightarrow> CHR '']'' \<notin> set cs \<Longrightarrow> openEmbed (u @ CHR ''!'' # cs)"
  by (induction u) simp_all

lemma replaceWikiLinks_plain: "CHR '']'' \<notin> set s \<Longrightarrow> replaceWikiLinks f b s = s"
proof (induction s arbitrary: b)
  case Nil
  then show ?case by simp
next
  case (Cons c cs)
  have "matchBrackets (c # cs) = None" using Cons.prems by (rule matchBrackets_plain)
  moreover have "replaceWikiLinks f (c = CHR ''!'') cs = cs" using Cons.prems by (intro Cons.IH) simp
  ultimately show ?case by simp
qed

lemma replaceImageEmbeds_plain: "CHR '']'' \<notin> set s \<Longrightarrow> replaceImageEmbeds f s = s"
proof (induction s)
  case Nil
  then show ?case by simp
next
  case (Cons c cs)
  have "matchBrackets cs = None" using Cons.prems by (intro matchBrackets_plain) simp
  moreover have "replaceImageEmbeds f cs = cs" using Cons.prems by (intro Cons.IH) simp
  ultimately show ?case by simp
qed

text \<open>
  The link pass at a marker that no earlier opening takes in: the text before it and
  the text after it are rewritten on their own.
\<close>

lemma replaceWikiLinks_reference:
  assumes o: "\<not> openLink b (pre @ ''[['')" and nb: "\<not> bangEnd b pre"
    and i: "inner \<noteq> []" "CHR '']'' \<notin> set inner"
  shows "replaceWikiLinks f b (pre @ ''[['' @ inner @ '']]'' @ post)
         = replaceWikiLinks f b pre @ f inner @ replaceWikiLinks f False post"
proof -
  define R where "R = ''[['' @ inner @ '']]'' @ post"
  have sR: "\<not> startsWith R '']''" by (simp add: R_def startsWith_def)
  have m: "matchBrackets (x @ R) = extendRest R (matchBrackets x)"
    if a: "pre = u @ x" "x \<noteq> []" "\<not> bangEnd b u" for u x
  proof -
    have no: "\<not> opensLink (x @ ''[['')"
    proof
      assume "opensLink (x @ ''[['')"
      with a(3) have "openLink b (u @ x @ ''[['')" by (rule openLink_append)
      then show False using o a(1) by simp
    qed
    show ?thesis
    proof (cases "startsWith x ''[[''")
      case True
      then obtain t where t: "x = ''[['' @ t" unfolding startsWith_two by blast
      have "CHR '']'' \<in> set t"
      proof (rule ccontr)
        assume "CHR '']'' \<notin> set t"
        then have "opensLink (x @ ''[['')" by (simp add: opensLink_def t startsWith_def)
        then show False using no by simp
      qed
      then obtain y v where v: "t = y @ CHR '']'' # v" "CHR '']'' \<notin> set y"
        by (meson split_list_first)
      have xe: "x = ''[['' @ y @ CHR '']'' # v" using t v(1) by simp
      have "v \<noteq> [] \<or> \<not> startsWith R '']''" using sR by simp
      with xe v(2) show ?thesis by (rule matchBrackets_append_closed)
    next
      case False
      have "x \<noteq> ''[''"
      proof
        assume "x = ''[''"
        then have "opensLink (x @ ''[['')" by (simp add: opensLink_def startsWith_def)
        then show False using no by simp
      qed
      then have "\<not> startsWith (x @ R) ''[[''"
        using False a(2) by (simp add: startsWith_append_two)
      then show ?thesis using False by (simp add: matchBrackets_not_started extendRest_def)
    qed
  qed
  have "replaceWikiLinks f b (pre @ R)
        = replaceWikiLinks f b pre @ replaceWikiLinks f (bangEnd b pre) R"
    using m by (rule replaceWikiLinks_append)
  moreover have "replaceWikiLinks f False R = f inner @ replaceWikiLinks f False post"
    using matchBrackets_marker[OF i, of post] by (simp add: R_def)
  ultimately show ?thesis using nb by (simp add: R_def)
qed

text \<open>
  The link pass at an embed: it leaves the embed as it is when no opening of a link,
  before the embed or inside it, runs up to its closing brackets.
\<close>

lemma replaceWikiLinks_closing:
  "replaceWikiLinks f b ('']]'' @ post) = '']]'' @ replaceWikiLinks f False post"
proof -
  have "matchBrackets (CHR '']'' # CHR '']'' # post) = None" "matchBrackets (CHR '']'' # post) = None"
    by (simp_all add: matchBrackets_def startsWith_def)
  then show ?thesis by simp
qed

lemma replaceWikiLinks_embed_general:
  assumes o: "\<not> openLink b (pre @ ''![['' @ p)" and p: "p \<noteq> []" "CHR '']'' \<notin> set p"
  shows "replaceWikiLinks f b (pre @ ''![['' @ p @ '']]'' @ post)
         = replaceWikiLinks f b pre @ ''![['' @ p @ '']]'' @ replaceWikiLinks f False post"
proof -
  define T where "T = pre @ ''![['' @ p"
  define R where "R = '']]'' @ post"
  have "last p \<in> set p" using p(1) by (rule last_in_set)
  then have "last p \<noteq> CHR '']''" using p(2) by auto
  then have lT: "last T \<noteq> CHR '']''" using p(1) by (simp add: T_def)
  have m: "matchBrackets (x @ R) = extendRest R (matchBrackets x)"
    if a: "T = u @ x" "x \<noteq> []" "\<not> bangEnd b u" for u x
  proof -
    have no: "\<not> opensLink x"
    proof
      assume "opensLink x"
      with a(3) have "openLink b (u @ x)" by (rule openLink_append)
      then show False using o a(1) by (simp add: T_def)
    qed
    have lx: "last x \<noteq> CHR '']''" using lT a(1,2) by simp
    show ?thesis
    proof (cases "startsWith x ''[[''")
      case True
      then obtain t where t: "x = ''[['' @ t" unfolding startsWith_two by blast
      show ?thesis
      proof (cases "CHR '']'' \<in> set t")
        case True
        then obtain y v where v: "t = y @ CHR '']'' # v" "CHR '']'' \<notin> set y"
          by (meson split_list_first)
        have xe: "x = ''[['' @ y @ CHR '']'' # v" using t v(1) by simp
        have "v \<noteq> []" using lx xe by auto
        then have "v \<noteq> [] \<or> \<not> startsWith R '']''" by simp
        with xe v(2) show ?thesis by (rule matchBrackets_append_closed)
      next
        case False
        then have "t = []" using no by (auto simp: opensLink_def t startsWith_def)
        then have x2: "x = ''[[''" using t by simp
        have "matchBrackets (''[['' @ [] @ CHR '']'' # (CHR '']'' # post)) = None"
          by (subst matchBrackets_closed) simp_all
        then have "matchBrackets (x @ R) = None" by (simp add: x2 R_def)
        moreover have "matchBrackets x = None"
          using matchBrackets_unclosed[of "[]"] by (simp add: x2)
        ultimately show ?thesis by (simp add: extendRest_def)
      qed
    next
      case False
      have "\<not> startsWith R ''[''" by (simp add: R_def startsWith_def)
      then have "\<not> startsWith (x @ R) ''[[''"
        using False a(2) by (simp add: startsWith_append_two)
      then show ?thesis using False by (simp add: matchBrackets_not_started extendRest_def)
    qed
  qed
  have 1: "replaceWikiLinks f b (T @ R)
        = replaceWikiLinks f b T @ replaceWikiLinks f (bangEnd b T) R"
    using m by (rule replaceWikiLinks_append)
  have 2: "replaceWikiLinks f (bangEnd b T) R = '']]'' @ replaceWikiLinks f False post"
    unfolding R_def by (rule replaceWikiLinks_closing)
  have np: "CHR '']'' \<notin> set (''![['' @ p)" using p(2) by simp
  have "replaceWikiLinks f b (pre @ ''![['' @ p)
        = replaceWikiLinks f b pre @ replaceWikiLinks f (bangEnd b pre) (''![['' @ p)"
    using matchBrackets_append_plain[OF np] by (intro replaceWikiLinks_append)
  moreover have "replaceWikiLinks f (bangEnd b pre) (''![['' @ p) = ''![['' @ p"
    using np by (rule replaceWikiLinks_plain)
  ultimately have 3: "replaceWikiLinks f b T = replaceWikiLinks f b pre @ ''![['' @ p"
    by (simp add: T_def)
  show ?thesis using 1 2 3 by (simp add: T_def R_def)
qed

text \<open>
  The embed pass over the link that the link pass has written: no embed runs over its
  \<open>](\<close>, so the text before it and the text after it are rewritten on their own.
\<close>

lemma matchBrackets_over_link:
  assumes Z: "Z \<noteq> []" "CHR '']'' \<notin> set Z"
  shows "matchBrackets (cs @ Z @ '']('' @ Y) = extendRest (Z @ '']('' @ Y) (matchBrackets cs)"
proof (cases "CHR '']'' \<in> set cs")
  case False
  then have "CHR '']'' \<notin> set (cs @ Z)" using Z(2) by simp
  then have "matchBrackets ((cs @ Z) @ '']('' @ Y) = None" by (rule matchBrackets_link_tail)
  moreover have "matchBrackets cs = None" using False by (rule matchBrackets_plain)
  ultimately show ?thesis by (simp add: extendRest_def)
next
  case True
  define R where "R = Z @ '']('' @ Y"
  obtain z zs where zz: "Z = z # zs" using Z(1) by (cases Z) auto
  then have "z \<noteq> CHR '']''" using Z(2) by auto
  then have sR: "\<not> startsWith R '']''" by (simp add: R_def zz startsWith_def)
  show ?thesis unfolding R_def[symmetric]
  proof (cases "startsWith cs ''[[''")
    case sw: True
    then obtain t where t: "cs = ''[['' @ t" unfolding startsWith_two by blast
    then have "CHR '']'' \<in> set t" using True by simp
    then obtain y v where v: "t = y @ CHR '']'' # v" "CHR '']'' \<notin> set y"
      by (meson split_list_first)
    have xe: "cs = ''[['' @ y @ CHR '']'' # v" using t v(1) by simp
    have "v \<noteq> [] \<or> \<not> startsWith R '']''" using sR by simp
    with xe v(2) show "matchBrackets (cs @ R) = extendRest R (matchBrackets cs)"
      by (rule matchBrackets_append_closed)
  next
    case False
    have "cs \<noteq> ''[''"
    proof
      assume "cs = ''[''"
      then show False using True by simp
    qed
    moreover have "cs \<noteq> []"
    proof
      assume "cs = []"
      then show False using True by simp
    qed
    ultimately have "\<not> startsWith (cs @ R) ''[[''"
      using False by (simp add: startsWith_append_two)
    then show "matchBrackets (cs @ R) = extendRest R (matchBrackets cs)"
      using False by (simp add: matchBrackets_not_started extendRest_def)
  qed
qed

lemma replaceImageEmbeds_over_link:
  assumes "CHR '']'' \<notin> set d" "CHR ''!'' \<notin> set dest" "CHR '']'' \<notin> set dest"
  shows "replaceImageEmbeds g (A @ ''['' @ d @ '']('' @ dest @ '')'' @ B)
         = replaceImageEmbeds g A @ ''['' @ d @ '']('' @ dest @ '')'' @ replaceImageEmbeds g B"
proof -
  define Z where "Z = ''['' @ d"
  define Y where "Y = dest @ '')'' @ B"
  have Z: "Z \<noteq> []" "CHR '']'' \<notin> set Z" using assms(1) by (simp_all add: Z_def)
  have 1: "replaceImageEmbeds g (A @ Z @ '']('' @ Y)
           = replaceImageEmbeds g A @ replaceImageEmbeds g (Z @ '']('' @ Y)"
    using matchBrackets_over_link[OF Z] by (intro replaceImageEmbeds_append)
  have 2: "replaceImageEmbeds g (Z @ '']('' @ Y) = Z @ replaceImageEmbeds g ('']('' @ Y)"
    using Z(2) by (rule replaceImageEmbeds_skip_label)
  have 3: "replaceImageEmbeds g ('']('' @ Y) = '']('' @ replaceImageEmbeds g Y"
    by (rule replaceImageEmbeds_skip_plain) simp
  have "replaceImageEmbeds g ((dest @ '')'') @ B) = (dest @ '')'') @ replaceImageEmbeds g B"
    using assms(2) by (intro replaceImageEmbeds_skip_plain) simp
  then have 4: "replaceImageEmbeds g Y = dest @ '')'' @ replaceImageEmbeds g B"
    by (simp add: Y_def)
  show ?thesis using 1 2 3 4 by (simp add: Z_def Y_def)
qed

text \<open>The embed pass at an embed that no earlier unclosed embed takes in.\<close>

lemma replaceImageEmbeds_embed:
  assumes o: "\<not> openEmbed A" and p: "p \<noteq> []" "CHR '']'' \<notin> set p"
  shows "replaceImageEmbeds g (A @ ''![['' @ p @ '']]'' @ B)
         = replaceImageEmbeds g A @ g p @ replaceImageEmbeds g B"
proof -
  define R where "R = ''![['' @ p @ '']]'' @ B"
  have sR: "\<not> startsWith R '']''" "\<not> startsWith R ''[''" "\<not> startsWith R ''[[''"
    by (simp_all add: R_def startsWith_def)
  have m: "matchBrackets (cs @ R) = extendRest R (matchBrackets cs)"
    if a: "A = u @ CHR ''!'' # cs" for u cs
  proof (cases "startsWith cs ''[[''")
    case True
    then obtain t where t: "cs = ''[['' @ t" unfolding startsWith_two by blast
    have "CHR '']'' \<in> set cs"
    proof (rule ccontr)
      assume "CHR '']'' \<notin> set cs"
      with True have "openEmbed (u @ CHR ''!'' # cs)" by (rule openEmbed_append)
      then show False using o a by simp
    qed
    then have "CHR '']'' \<in> set t" using t by simp
    then obtain y v where v: "t = y @ CHR '']'' # v" "CHR '']'' \<notin> set y"
      by (meson split_list_first)
    have xe: "cs = ''[['' @ y @ CHR '']'' # v" using t v(1) by simp
    have "v \<noteq> [] \<or> \<not> startsWith R '']''" using sR by simp
    with xe v(2) show ?thesis by (rule matchBrackets_append_closed)
  next
    case False
    then have "\<not> startsWith (cs @ R) ''[[''" using sR by (simp add: startsWith_append_two)
    then show ?thesis using False by (simp add: matchBrackets_not_started extendRest_def)
  qed
  have "replaceImageEmbeds g (A @ R) = replaceImageEmbeds g A @ replaceImageEmbeds g R"
    using m by (rule replaceImageEmbeds_append)
  moreover have "replaceImageEmbeds g R = g p @ replaceImageEmbeds g B"
    using matchBrackets_marker[OF p, of B] by (simp add: R_def)
  ultimately show ?thesis by (simp add: R_def)
qed
section \<open>Positions in a forest of nodes\<close>













section \<open>The three changes of the heap\<close>


















subsection \<open>The inner loop over the folders of a path\<close>























subsection \<open>Output paths in the heap\<close>












lemma pushChild_path: "nodePath (pushChild b n h ! a) = nodePath (h ! a)"
proof (cases "b < length h")
  case True
  then show ?thesis by (cases "a = b") (simp_all add: pushChild_def)
next
  case False
  then have "h[b := (h ! b)\<lparr>children := children (h ! b) @ [n]\<rparr>] = h"
    by (intro list_update_beyond) simp
  then show ?thesis by (simp add: pushChild_def)
qed


subsection \<open>One round of the inner loop keeps the invariants\<close>









subsection \<open>Files of the host and their places in the tree\<close>
















subsection \<open>Adding a file keeps the invariants\<close>














subsection \<open>The loop over the sorted files\<close>










section \<open>Claim C1\<close>

lemma bangEnd_not_bang: "pre = [] \<or> last pre \<noteq> CHR ''!'' \<Longrightarrow> \<not> bangEnd False pre"
  by (auto simp: bangEnd_def)

lemma convertWikiLinks_broken:
  assumes "\<not> openLink False (pre @ ''[['')" "pre = [] \<or> last pre \<noteq> CHR ''!''"
    and "linkText \<noteq> []" "CHR '']'' \<notin> set linkText"
    and "findTargetFile files (wikiLink linkText) = None"
  shows "convertWikiLinks ext cwd files file (pre @ ''[['' @ linkText @ '']]'' @ post)
         = convertWikiLinks ext cwd files file pre
           @ ''['' @ wikiDisplayText linkText @ ''](#broken-link)''
           @ convertWikiLinks ext cwd files file post"
proof -
  have "wikiLinkMarkup ext cwd files file linkText
        = ''['' @ wikiDisplayText linkText @ ''](#broken-link)''"
    using assms(5) by (simp add: wikiLinkMarkup_def Let_def)
  then show ?thesis
    unfolding convertWikiLinks_def
    using replaceWikiLinks_reference[OF assms(1) bangEnd_not_bang[OF assms(2)] assms(3,4),
        of "wikiLinkMarkup ext cwd files file" post]
    by simp
qed

lemma convertImageEmbeds_over_broken_link:
  assumes "CHR '']'' \<notin> set label"
  shows "convertImageEmbeds ext cwd imageFiles file (A @ ''['' @ label @ ''](#broken-link)'' @ B)
         = convertImageEmbeds ext cwd imageFiles file A @ ''['' @ label @ ''](#broken-link)''
           @ convertImageEmbeds ext cwd imageFiles file B"
proof -
  define g where "g = imageMarkup ext cwd imageFiles file"
  have "replaceImageEmbeds g (A @ ''['' @ label @ '']('' @ ''#broken-link'' @ '')'' @ B)
        = replaceImageEmbeds g A @ ''['' @ label @ '']('' @ ''#broken-link'' @ '')''
          @ replaceImageEmbeds g B"
    using assms by (rule replaceImageEmbeds_over_link) simp_all
  then show ?thesis unfolding convertImageEmbeds_def g_def[symmetric] by simp
qed

lemma markdownToHTML_broken_link:
  assumes "\<not> openLink False (pre @ ''[['')" "pre = [] \<or> last pre \<noteq> CHR ''!''"
    and "linkText \<noteq> []" "CHR '']'' \<notin> set linkText"
    and "findTargetFile files (wikiLink linkText) = None"
  shows "markdownToHTML marked ext cwd files imageFiles file (pre @ ''[['' @ linkText @ '']]'' @ post)
         = marked (convertImageEmbeds ext cwd imageFiles file (convertWikiLinks ext cwd files file pre)
                   @ ''['' @ wikiDisplayText linkText @ ''](#broken-link)''
                   @ convertImageEmbeds ext cwd imageFiles file (convertWikiLinks ext cwd files file post))"
proof -
  have w: "convertWikiLinks ext cwd files file (pre @ ''[['' @ linkText @ '']]'' @ post)
         = convertWikiLinks ext cwd files file pre
           @ ''['' @ wikiDisplayText linkText @ ''](#broken-link)''
           @ convertWikiLinks ext cwd files file post"
    using assms by (rule convertWikiLinks_broken)
  have "set (wikiDisplayText linkText) \<subseteq> set linkText" by (rule wikiDisplayText_chars)
  then have "CHR '']'' \<notin> set (wikiDisplayText linkText)" using assms(4) by (rule contra_subsetD)
  then have i: "convertImageEmbeds ext cwd imageFiles file
              (convertWikiLinks ext cwd files file pre
               @ ''['' @ wikiDisplayText linkText @ ''](#broken-link)''
               @ convertWikiLinks ext cwd files file post)
            = convertImageEmbeds ext cwd imageFiles file (convertWikiLinks ext cwd files file pre)
              @ ''['' @ wikiDisplayText linkText @ ''](#broken-link)''
              @ convertImageEmbeds ext cwd imageFiles file (convertWikiLinks ext cwd files file post)"
    by (rule convertImageEmbeds_over_broken_link)
  show ?thesis by (simp only: markdownToHTML_def Let_def w i)
qed

lemma markdownToHTML_broken_image:
  assumes "\<not> openLink False (pre @ ''![['' @ imagePath)"
    and "\<not> openEmbed (convertWikiLinks ext cwd files file pre)"
    and "imagePath \<noteq> []" "CHR '']'' \<notin> set imagePath"
    and "findImageFile imageFiles imagePath = None"
  shows "markdownToHTML marked ext cwd files imageFiles file (pre @ ''![['' @ imagePath @ '']]'' @ post)
         = marked (convertImageEmbeds ext cwd imageFiles file (convertWikiLinks ext cwd files file pre)
                   @ ''!['' @ imagePath @ ''](#broken-image)''
                   @ convertImageEmbeds ext cwd imageFiles file (convertWikiLinks ext cwd files file post))"
proof -
  have w: "convertWikiLinks ext cwd files file (pre @ ''![['' @ imagePath @ '']]'' @ post)
           = convertWikiLinks ext cwd files file pre @ ''![['' @ imagePath @ '']]''
             @ convertWikiLinks ext cwd files file post"
    unfolding convertWikiLinks_def using assms(1,3,4) by (rule replaceWikiLinks_embed_general)
  have m: "imageMarkup ext cwd imageFiles file imagePath = ''!['' @ imagePath @ ''](#broken-image)''"
    using assms(5) by (simp add: imageMarkup_def)
  have i: "convertImageEmbeds ext cwd imageFiles file
             (convertWikiLinks ext cwd files file pre @ ''![['' @ imagePath @ '']]''
              @ convertWikiLinks ext cwd files file post)
           = convertImageEmbeds ext cwd imageFiles file (convertWikiLinks ext cwd files file pre)
             @ ''!['' @ imagePath @ ''](#broken-image)''
             @ convertImageEmbeds ext cwd imageFiles file (convertWikiLinks ext cwd files file post)"
    unfolding convertImageEmbeds_def
    using replaceImageEmbeds_embed[OF assms(2,3,4), of "imageMarkup ext cwd imageFiles file"] m
    by simp
  show ?thesis by (simp only: markdownToHTML_def Let_def w i)
qed

text \<open>
  Claim C1, as amended. In any body, a wiki reference \<open>[[target]]\<close> or
  \<open>[[target|label]]\<close> that the link pattern matches and whose target resolves to no
  document is replaced, without any error, by a link to the literal fragment
  \<open>#broken-link\<close> with the trimmed label, or else the trimmed target, as its text. The
  pattern matches the reference when it is not preceded by \<open>!\<close> and no opening before
  it takes it in: the text up to its two opening brackets holds no earlier \<open>[[\<close>, not
  preceded by \<open>!\<close>, that is followed by no \<open>]\<close>. An image embed \<open>![[imagePath]]\<close> that
  resolves to no image is replaced by image markup with the path as alternative text
  and \<open>#broken-image\<close> as destination when the link pass leaves it alone and the embed
  pattern matches it: the text up to its closing brackets holds no \<open>[[\<close>, not preceded by
  \<open>!\<close>, that is followed by text without \<open>]\<close>, and the text before the embed, as the
  link pass leaves it, holds no \<open>![[\<close> followed by no \<open>]\<close>. The text before and the text
  after the marker are rewritten on their own. The functions have no failing branch:
  every input has a result. The text is what \<open>markdownToHTML\<close> hands to the renderer
  \<open>marked\<close>.
\<close>

theorem C1_broken_references:
  "(\<not> openLink False (pre @ ''[['') \<and> (pre = [] \<or> last pre \<noteq> CHR ''!'') \<and> linkText \<noteq> [] \<and>
    CHR '']'' \<notin> set linkText \<and> findTargetFile files (wikiLink linkText) = None \<longrightarrow>
      markdownToHTML marked ext cwd files imageFiles file (pre @ ''[['' @ linkText @ '']]'' @ post)
      = marked (convertImageEmbeds ext cwd imageFiles file (convertWikiLinks ext cwd files file pre)
                @ ''['' @ wikiDisplayText linkText @ ''](#broken-link)''
                @ convertImageEmbeds ext cwd imageFiles file (convertWikiLinks ext cwd files file post))) \<and>
   (CHR ''|'' \<notin> set target \<longrightarrow>
      wikiLink target = trim target \<and> wikiDisplayText target = trim target) \<and>
   (CHR ''|'' \<notin> set target \<and> CHR ''|'' \<notin> set label \<and> label \<noteq> [] \<longrightarrow>
      wikiLink (target @ ''|'' @ label) = trim target \<and>
      wikiDisplayText (target @ ''|'' @ label) = trim label) \<and>
   (\<not> openLink False (pre @ ''![['' @ imagePath) \<and>
    \<not> openEmbed (convertWikiLinks ext cwd files file pre) \<and> imagePath \<noteq> [] \<and>
    CHR '']'' \<notin> set imagePath \<and> findImageFile imageFiles imagePath = None \<longrightarrow>
      markdownToHTML marked ext cwd files imageFiles file (pre @ ''![['' @ imagePath @ '']]'' @ post)
      = marked (convertImageEmbeds ext cwd imageFiles file (convertWikiLinks ext cwd files file pre)
                @ ''!['' @ imagePath @ ''](#broken-image)''
                @ convertImageEmbeds ext cwd imageFiles file (convertWikiLinks ext cwd files file post)))"
proof -
  have a: "\<not> openLink False (pre @ ''[['') \<and> (pre = [] \<or> last pre \<noteq> CHR ''!'') \<and> linkText \<noteq> [] \<and>
    CHR '']'' \<notin> set linkText \<and> findTargetFile files (wikiLink linkText) = None \<longrightarrow>
      markdownToHTML marked ext cwd files imageFiles file (pre @ ''[['' @ linkText @ '']]'' @ post)
      = marked (convertImageEmbeds ext cwd imageFiles file (convertWikiLinks ext cwd files file pre)
                @ ''['' @ wikiDisplayText linkText @ ''](#broken-link)''
                @ convertImageEmbeds ext cwd imageFiles file (convertWikiLinks ext cwd files file post))"
    by (intro impI, elim conjE, rule markdownToHTML_broken_link)
  have b: "CHR ''|'' \<notin> set target \<longrightarrow>
      wikiLink target = trim target \<and> wikiDisplayText target = trim target"
    using wiki_no_label[of target] by (rule impI)
  have c: "CHR ''|'' \<notin> set target \<and> CHR ''|'' \<notin> set label \<and> label \<noteq> [] \<longrightarrow>
      wikiLink (target @ ''|'' @ label) = trim target \<and>
      wikiDisplayText (target @ ''|'' @ label) = trim label"
    by (intro impI, elim conjE, rule wiki_label)
  have d: "\<not> openLink False (pre @ ''![['' @ imagePath) \<and>
    \<not> openEmbed (convertWikiLinks ext cwd files file pre) \<and> imagePath \<noteq> [] \<and>
    CHR '']'' \<notin> set imagePath \<and> findImageFile imageFiles imagePath = None \<longrightarrow>
      markdownToHTML marked ext cwd files imageFiles file (pre @ ''![['' @ imagePath @ '']]'' @ post)
      = marked (convertImageEmbeds ext cwd imageFiles file (convertWikiLinks ext cwd files file pre)
                @ ''!['' @ imagePath @ ''](#broken-image)''
                @ convertImageEmbeds ext cwd imageFiles file (convertWikiLinks ext cwd files file post))"
    by (intro impI, elim conjE, rule markdownToHTML_broken_image)
  show ?thesis using a b c d by (intro conjI)
qed

text \<open>
  In the document \<open>blog/post1.md\<close>, with \<open>index.md\<close> the only other document and no
  image: the body \<open>[a](b) ![c] [[nope | Label ]] and ![[pic.png]]\<close>, which holds
  brackets before both markers, becomes
  \<open>[a](b) ![c] [Label](#broken-link) and ![pic.png](#broken-image)\<close>.
\<close>

theorem C1_broken_references_witness:
  "markdownToHTML (\<lambda>s. s) (\<lambda>c. None) [] 
     [\<lparr>path = ''index.md'', name = ''index.md'', basename = ''index''\<rparr>,
      \<lparr>path = ''blog/post1.md'', name = ''post1.md'', basename = ''post1''\<rparr>] []
     \<lparr>path = ''blog/post1.md'', name = ''post1.md'', basename = ''post1''\<rparr>
     ''[a](b) ![c] [[nope | Label ]] and ![[pic.png]]''
   = ''[a](b) ![c] [Label](#broken-link) and ![pic.png](#broken-image)''"
proof -
  let ?files = "[\<lparr>path = ''index.md'', name = ''index.md'', basename = ''index''\<rparr>,
      \<lparr>path = ''blog/post1.md'', name = ''post1.md'', basename = ''post1''\<rparr>]"
  let ?file = "\<lparr>path = ''blog/post1.md'', name = ''post1.md'', basename = ''post1''\<rparr>"
  have l: "wikiLink ''nope | Label '' = ''nope''" "wikiDisplayText ''nope | Label '' = ''Label''"
    by code_simp+
  have f: "findTargetFile ?files ''nope'' = None"
    by (simp add: findTargetFile_def stripMd_def endsWith_def)
  have o1: "\<not> openLink False (''[a](b) ![c] '' @ ''[['')"
    by (simp add: opensLink_def startsWith_def)
  have o2: "\<not> openLink False ('' and '' @ ''![['' @ ''pic.png'')"
    by (simp add: opensLink_def startsWith_def)
  have p1: "convertWikiLinks (\<lambda>c. None) [] ?files ?file ''[a](b) ![c] '' = ''[a](b) ![c] ''"
    "convertWikiLinks (\<lambda>c. None) [] ?files ?file '' and '' = '' and ''"
    "convertWikiLinks (\<lambda>c. None) [] ?files ?file [] = []"
    by (simp_all add: convertWikiLinks_def matchBrackets_def startsWith_def)
  have p2: "convertImageEmbeds (\<lambda>c. None) [] [] ?file ''[a](b) ![c] '' = ''[a](b) ![c] ''"
    "convertImageEmbeds (\<lambda>c. None) [] [] ?file '' and '' = '' and ''"
    "convertImageEmbeds (\<lambda>c. None) [] [] ?file [] = []"
    by (simp_all add: convertImageEmbeds_def matchBrackets_def startsWith_def)
  have o3: "\<not> openEmbed (convertWikiLinks (\<lambda>c. None) [] ?files ?file '' and '')"
    unfolding p1 by (simp add: startsWith_def)
  have 1: "markdownToHTML (\<lambda>s. s) (\<lambda>c. None) [] ?files [] ?file
             (''[a](b) ![c] '' @ ''[['' @ ''nope | Label '' @ '']]'' @ '' and ![[pic.png]]'')
           = ''[a](b) ![c] '' @ ''['' @ ''Label'' @ ''](#broken-link)''
             @ convertImageEmbeds (\<lambda>c. None) [] [] ?file
                 (convertWikiLinks (\<lambda>c. None) [] ?files ?file '' and ![[pic.png]]'')"
    using C1_broken_references[of "''[a](b) ![c] ''" "''nope | Label ''" ?files "\<lambda>s. s" "\<lambda>c. None"
        "[]" "[]" "?file" "'' and ![[pic.png]]''"] l f o1 p1 p2
    by simp
  have 2: "markdownToHTML (\<lambda>s. s) (\<lambda>c. None) [] ?files [] ?file
             ('' and '' @ ''![['' @ ''pic.png'' @ '']]'' @ [])
           = '' and '' @ ''!['' @ ''pic.png'' @ ''](#broken-image)'' @ []"
    using C1_broken_references[of "'' and ''" _ ?files "\<lambda>s. s" "\<lambda>c. None" "[]" "[]" "?file" "[]" _ _
        "''pic.png''"] o2 o3 p1 p2
    by simp
  have 4: "convertImageEmbeds (\<lambda>c. None) [] [] ?file
             (convertWikiLinks (\<lambda>c. None) [] ?files ?file '' and ![[pic.png]]'')
           = '' and ![pic.png](#broken-image)''"
    using 2 by (simp add: markdownToHTML_def)
  show ?thesis using 1 4 by simp
qed

text \<open>
  The claim as stated fails at the body \<open>![[[x]]\<close>, an embed of the path \<open>[x\<close>, which
  resolves to no image: the link pass, which does not look at a \<open>[[\<close> that follows \<open>!\<close>,
  takes the \<open>[[x]]\<close> after the first bracket for a reference, and what it writes is no
  embed for the second pass. The result holds \<open>#broken-link\<close> and no \<open>#broken-image\<close>.
\<close>

theorem C1_broken_references_counterexample:
  "findImageFile [] ''[x'' = None \<and>
   markdownToHTML (\<lambda>s. s) (\<lambda>c. None) [] [] []
     \<lparr>path = ''a.md'', name = ''a.md'', basename = ''a''\<rparr> ''![[[x]]''
   = ''![[x](#broken-link)'' \<and>
   markdownToHTML (\<lambda>s. s) (\<lambda>c. None) [] [] []
     \<lparr>path = ''a.md'', name = ''a.md'', basename = ''a''\<rparr> ''![[[x]]''
   \<noteq> ''![[x](#broken-image)''"
proof -
  have l: "wikiLink ''x'' = ''x''" "wikiDisplayText ''x'' = ''x''" by code_simp+
  have m: "wikiLinkMarkup (\<lambda>c. None) [] [] \<lparr>path = ''a.md'', name = ''a.md'', basename = ''a''\<rparr> ''x''
           = ''[x](#broken-link)''"
    by (simp add: wikiLinkMarkup_def l findTargetFile_def Let_def)
  have w: "convertWikiLinks (\<lambda>c. None) [] [] \<lparr>path = ''a.md'', name = ''a.md'', basename = ''a''\<rparr>
             ''![[[x]]'' = ''![[x](#broken-link)''"
    by (simp add: convertWikiLinks_def matchBrackets_def startsWith_def m)
  have i: "convertImageEmbeds (\<lambda>c. None) [] [] \<lparr>path = ''a.md'', name = ''a.md'', basename = ''a''\<rparr>
             ''![[x](#broken-link)'' = ''![[x](#broken-link)''"
    by (simp add: convertImageEmbeds_def matchBrackets_def startsWith_def)
  show ?thesis by (simp add: markdownToHTML_def w i)
qed
section \<open>Claim C2\<close>

text \<open>
  Claim C2, as amended. When the body of a document A holds a reference that the link
  pattern matches and that resolves to a document B, the link written for it is the
  relative path from A's output path to B's, and resolving that relative path against
  the directory of A's output path gives exactly B's output path, whatever the folder
  depths of A and B and whatever the working directory of the process. The pattern
  matches the reference when it is not preceded by \<open>!\<close> and no opening before it takes
  it in, as in claim C1; the text before and the text after are rewritten on their own.
\<close>

theorem C2_reference_roundtrip:
  assumes "\<not> openLink False (pre @ ''[['')" "pre = [] \<or> last pre \<noteq> CHR ''!''"
    and "linkText \<noteq> []" "CHR '']'' \<notin> set linkText"
    and "findTargetFile files (wikiLink linkText) = Some b"
  shows "convertWikiLinks ext cwd files a (pre @ ''[['' @ linkText @ '']]'' @ post)
         = convertWikiLinks ext cwd files a pre
           @ ''['' @ wikiDisplayText linkText @ '']('' 
           @ getRelativePath cwd (getOutputPath ext (path a)) (getOutputPath ext (path b))
           @ '')'' @ convertWikiLinks ext cwd files a post
         \<and> join [dirname (getOutputPath ext (path a)),
                 getRelativePath cwd (getOutputPath ext (path a)) (getOutputPath ext (path b))]
           = getOutputPath ext (path b)"
proof -
  have nb: "\<not> bangEnd False pre" using assms(2) by (auto simp: bangEnd_def)
  have "wikiLinkMarkup ext cwd files a linkText
        = ''['' @ wikiDisplayText linkText @ '']('' 
          @ getRelativePath cwd (getOutputPath ext (path a)) (getOutputPath ext (path b)) @ '')''"
    using assms(5) by (simp add: wikiLinkMarkup_def Let_def)
  then have 1: "convertWikiLinks ext cwd files a (pre @ ''[['' @ linkText @ '']]'' @ post)
         = convertWikiLinks ext cwd files a pre
           @ ''['' @ wikiDisplayText linkText @ '']('' 
           @ getRelativePath cwd (getOutputPath ext (path a)) (getOutputPath ext (path b))
           @ '')'' @ convertWikiLinks ext cwd files a post"
    unfolding convertWikiLinks_def
    using replaceWikiLinks_reference[OF assms(1) nb assms(3,4), of "wikiLinkMarkup ext cwd files a" post]
    by simp
  have 2: "join [dirname (getOutputPath ext (path a)),
                 getRelativePath cwd (getOutputPath ext (path a)) (getOutputPath ext (path b))]
           = getOutputPath ext (path b)"
    by (rule getRelativePath_roundtrip)
  show ?thesis using 1 2 by (rule conjI)
qed

text \<open>
  The scenario of the specification: in \<open>blog/post1.md\<close> the body
  \<open>[a](b) ![c] See [[index]]\<close> becomes \<open>[a](b) ![c] See [index](../index.html)\<close>, and
  \<open>../index.html\<close> resolved against \<open>obsidian-foursg/site/blog\<close> is
  \<open>obsidian-foursg/site/index.html\<close>.
\<close>

theorem C2_reference_roundtrip_witness:
  "convertWikiLinks (\<lambda>c. None) [''home'', ''user'']
     [\<lparr>path = ''index.md'', name = ''index.md'', basename = ''index''\<rparr>,
      \<lparr>path = ''blog/post1.md'', name = ''post1.md'', basename = ''post1''\<rparr>]
     \<lparr>path = ''blog/post1.md'', name = ''post1.md'', basename = ''post1''\<rparr>
     ''[a](b) ![c] See [[index]]''
   = ''[a](b) ![c] See [index](../index.html)'' \<and>
   join [''obsidian-foursg/site/blog'', ''../index.html''] = ''obsidian-foursg/site/index.html''"
proof -
  let ?files = "[\<lparr>path = ''index.md'', name = ''index.md'', basename = ''index''\<rparr>,
      \<lparr>path = ''blog/post1.md'', name = ''post1.md'', basename = ''post1''\<rparr>]"
  let ?a = "\<lparr>path = ''blog/post1.md'', name = ''post1.md'', basename = ''post1''\<rparr>"
  let ?b = "\<lparr>path = ''index.md'', name = ''index.md'', basename = ''index''\<rparr>"
  have l: "wikiLink ''index'' = ''index''" "wikiDisplayText ''index'' = ''index''"
    by code_simp+
  have f: "findTargetFile ?files (wikiLink ''index'') = Some ?b"
    by (simp add: l findTargetFile_def stripMd_def endsWith_def)
  have o: "getOutputPath (\<lambda>c. None) ''blog/post1.md'' = ''obsidian-foursg/site/blog/post1.html''"
    "getOutputPath (\<lambda>c. None) ''index.md'' = ''obsidian-foursg/site/index.html''"
    "dirname ''obsidian-foursg/site/blog/post1.html'' = ''obsidian-foursg/site/blog''"
    "getRelativePath [''home'', ''user''] ''obsidian-foursg/site/blog/post1.html''
       ''obsidian-foursg/site/index.html'' = ''../index.html''"
    by code_simp+
  have h: "\<not> openLink False (''[a](b) ![c] See '' @ ''[['')"
    "''[a](b) ![c] See '' = [] \<or> last ''[a](b) ![c] See '' \<noteq> CHR ''!''"
    "''index'' \<noteq> []" "CHR '']'' \<notin> set ''index''"
    by (simp_all add: opensLink_def startsWith_def)
  have e: "convertWikiLinks (\<lambda>c. None) [''home'', ''user''] ?files ?a [] = []"
    "convertWikiLinks (\<lambda>c. None) [''home'', ''user''] ?files ?a ''[a](b) ![c] See ''
     = ''[a](b) ![c] See ''"
    by (simp_all add: convertWikiLinks_def matchBrackets_def startsWith_def)
  show ?thesis
    using C2_reference_roundtrip[OF h f, of "\<lambda>c. None" "[''home'', ''user'']" ?a "[]"] l o e
    by simp
qed

text \<open>
  The claim as stated fails at the body \<open>[[x [[index]]\<close> of \<open>blog/post1.md\<close>: it holds
  \<open>[[index]]\<close>, and \<open>index\<close> resolves, but the pattern matches from the first \<open>[[\<close> on,
  the target it reads is \<open>x [[index\<close>, and the link written is the broken one.
\<close>

theorem C2_reference_roundtrip_counterexample:
  "findTargetFile
     [\<lparr>path = ''index.md'', name = ''index.md'', basename = ''index''\<rparr>,
      \<lparr>path = ''blog/post1.md'', name = ''post1.md'', basename = ''post1''\<rparr>]
     (wikiLink ''index'')
   = Some \<lparr>path = ''index.md'', name = ''index.md'', basename = ''index''\<rparr> \<and>
   convertWikiLinks (\<lambda>c. None) [''home'', ''user'']
     [\<lparr>path = ''index.md'', name = ''index.md'', basename = ''index''\<rparr>,
      \<lparr>path = ''blog/post1.md'', name = ''post1.md'', basename = ''post1''\<rparr>]
     \<lparr>path = ''blog/post1.md'', name = ''post1.md'', basename = ''post1''\<rparr>
     ''[[x [[index]]''
   = ''[x [[index](#broken-link)''"
proof -
  let ?files = "[\<lparr>path = ''index.md'', name = ''index.md'', basename = ''index''\<rparr>,
      \<lparr>path = ''blog/post1.md'', name = ''post1.md'', basename = ''post1''\<rparr>]"
  let ?a = "\<lparr>path = ''blog/post1.md'', name = ''post1.md'', basename = ''post1''\<rparr>"
  have l: "wikiLink ''index'' = ''index''" "wikiLink ''x [[index'' = ''x [[index''"
    "wikiDisplayText ''x [[index'' = ''x [[index''"
    by code_simp+
  have f: "findTargetFile ?files ''index''
           = Some \<lparr>path = ''index.md'', name = ''index.md'', basename = ''index''\<rparr>"
    "findTargetFile ?files ''x [[index'' = None"
    by (simp_all add: findTargetFile_def stripMd_def endsWith_def)
  have m: "wikiLinkMarkup (\<lambda>c. None) [''home'', ''user''] ?files ?a ''x [[index''
           = ''[x [[index](#broken-link)''"
    by (simp add: wikiLinkMarkup_def l f Let_def)
  have "convertWikiLinks (\<lambda>c. None) [''home'', ''user''] ?files ?a ''[[x [[index]]''
        = ''[x [[index](#broken-link)''"
    by (simp add: convertWikiLinks_def matchBrackets_def startsWith_def m)
  then show ?thesis using l(1) f(1) by simp
qed
section \<open>Claim C3\<close>

text \<open>
  Claim C3: for a document whose front matter has neither a \<open>priority\<close> nor a
  \<open>changefreq\<close> key, the sitemap entry added for it has priority 1.0 and change
  frequency weekly when its base name is \<open>index\<close>, compared without regard to case, and
  its path has one part (the content root); priority 0.8 and weekly when it is an index
  deeper down; priority 0.6 and monthly otherwise.
\<close>

theorem C3_sitemap_defaults:
  assumes "fmPriority frontMatter = None" and "fmChangefreq frontMatter = None"
  shows "(toLowerCase (basenameExt (path file) ''.md'') = ''index'' \<and>
            length (splitOn CHR ''/'' (path file)) = 1 \<longrightarrow>
            priority (last (urls (addPageUrl ext g frontMatter file mtimeDate))) = Some 1.0 \<and>
            changefreq (last (urls (addPageUrl ext g frontMatter file mtimeDate))) = Some Weekly) \<and>
         (toLowerCase (basenameExt (path file) ''.md'') = ''index'' \<and>
            length (splitOn CHR ''/'' (path file)) \<noteq> 1 \<longrightarrow>
            priority (last (urls (addPageUrl ext g frontMatter file mtimeDate))) = Some 0.8 \<and>
            changefreq (last (urls (addPageUrl ext g frontMatter file mtimeDate))) = Some Weekly) \<and>
         (toLowerCase (basenameExt (path file) ''.md'') \<noteq> ''index'' \<longrightarrow>
            priority (last (urls (addPageUrl ext g frontMatter file mtimeDate))) = Some 0.6 \<and>
            changefreq (last (urls (addPageUrl ext g frontMatter file mtimeDate))) = Some Monthly)"
  using assms
  by (simp add: addPageUrl_def addUrl_def sitemapUrlFor_def getPriority_def getChangeFreq_def Let_def)

text \<open>The three cases at \<open>Index.md\<close>, \<open>blog/index.md\<close> and \<open>blog/post1.md\<close>.\<close>

lemma basenameExt_examples:
  "toLowerCase (basenameExt ''Index.md'' ''.md'') = ''index''"
  "toLowerCase (basenameExt ''blog/index.md'' ''.md'') = ''index''"
  "toLowerCase (basenameExt ''blog/post1.md'' ''.md'') = ''post1''"
  by code_simp+

theorem C3_sitemap_defaults_witness:
  "priority (last (urls (addPageUrl (\<lambda>c. None) (newSitemapGenerator ''https://example.com'')
       \<lparr>fmChangefreq = None, fmPriority = None\<rparr>
       \<lparr>path = ''Index.md'', name = ''Index.md'', basename = ''Index''\<rparr> ''2024-05-01''))) = Some 1.0 \<and>
   changefreq (last (urls (addPageUrl (\<lambda>c. None) (newSitemapGenerator ''https://example.com'')
       \<lparr>fmChangefreq = None, fmPriority = None\<rparr>
       \<lparr>path = ''Index.md'', name = ''Index.md'', basename = ''Index''\<rparr> ''2024-05-01''))) = Some Weekly \<and>
   priority (last (urls (addPageUrl (\<lambda>c. None) (newSitemapGenerator ''https://example.com'')
       \<lparr>fmChangefreq = None, fmPriority = None\<rparr>
       \<lparr>path = ''blog/index.md'', name = ''index.md'', basename = ''index''\<rparr> ''2024-05-01''))) = Some 0.8 \<and>
   changefreq (last (urls (addPageUrl (\<lambda>c. None) (newSitemapGenerator ''https://example.com'')
       \<lparr>fmChangefreq = None, fmPriority = None\<rparr>
       \<lparr>path = ''blog/index.md'', name = ''index.md'', basename = ''index''\<rparr> ''2024-05-01''))) = Some Weekly \<and>
   priority (last (urls (addPageUrl (\<lambda>c. None) (newSitemapGenerator ''https://example.com'')
       \<lparr>fmChangefreq = None, fmPriority = None\<rparr>
       \<lparr>path = ''blog/post1.md'', name = ''post1.md'', basename = ''post1''\<rparr> ''2024-05-01''))) = Some 0.6 \<and>
   changefreq (last (urls (addPageUrl (\<lambda>c. None) (newSitemapGenerator ''https://example.com'')
       \<lparr>fmChangefreq = None, fmPriority = None\<rparr>
       \<lparr>path = ''blog/post1.md'', name = ''post1.md'', basename = ''post1''\<rparr> ''2024-05-01''))) = Some Monthly"
  using
    C3_sitemap_defaults[of "\<lparr>fmChangefreq = None, fmPriority = None\<rparr>"
      "\<lparr>path = ''Index.md'', name = ''Index.md'', basename = ''Index''\<rparr>" "\<lambda>c. None" "newSitemapGenerator ''https://example.com''" "''2024-05-01''"]
    C3_sitemap_defaults[of "\<lparr>fmChangefreq = None, fmPriority = None\<rparr>"
      "\<lparr>path = ''blog/index.md'', name = ''index.md'', basename = ''index''\<rparr>" "\<lambda>c. None" "newSitemapGenerator ''https://example.com''" "''2024-05-01''"]
    C3_sitemap_defaults[of "\<lparr>fmChangefreq = None, fmPriority = None\<rparr>"
      "\<lparr>path = ''blog/post1.md'', name = ''post1.md'', basename = ''post1''\<rparr>" "\<lambda>c. None" "newSitemapGenerator ''https://example.com''" "''2024-05-01''"]
  by (simp add: basenameExt_examples)

section \<open>Claim C4\<close>

text \<open>
  Claim C4: for every document path, a vault path with the folders \<open>dirs\<close> and the
  file name \<open>file\<close>, the output path ends in \<open>.html\<close>; its base name is literally
  \<open>index\<close> when the source base name is \<open>index\<close> without regard to case, and the
  sanitised source base name otherwise; its directory is that of the source with each
  folder name sanitised on its own, under the site directory. A folder whose sanitised
  name is empty contributes no segment, since \<open>join\<close> drops empty segments. The source
  base name is the file name without a final \<open>.md\<close>.
\<close>

theorem C4_getOutputPath:
  assumes "\<forall>s \<in> set (dirs @ [file]). vaultSeg s"
  shows "getOutputPath ext (joinWith ''/'' (dirs @ [file]))
           = joinWith ''/''
               (segments sitePath
                @ filter (\<lambda>s. s \<noteq> []) (map (sanitizeFilename ext) dirs)
                @ [(if toLowerCase (basenameExt (joinWith ''/'' (dirs @ [file])) ''.md'') = ''index''
                    then ''index''
                    else sanitizeFilename ext (basenameExt (joinWith ''/'' (dirs @ [file])) ''.md''))
                   @ ''.html''])
         \<and> basenameExt (joinWith ''/'' (dirs @ [file])) ''.md''
           = (if endsWith file ''.md'' then take (length file - 3) file else file)
         \<and> endsWith (getOutputPath ext (joinWith ''/'' (dirs @ [file]))) ''.html''"
proof -
  define p where "p = joinWith ''/'' (dirs @ [file])"
  have d: "dirname p = (if dirs = [] then ''.'' else joinWith ''/'' dirs)"
    unfolding p_def using assms by (rule dirname_vault)
  have ds: "filter (\<lambda>s. s \<noteq> []) (map (sanitizeFilename ext) (splitOn CHR ''/'' (dirname p)))
            = filter (\<lambda>s. s \<noteq> []) (map (sanitizeFilename ext) dirs)"
  proof (cases "dirs = []")
    case True
    then show ?thesis using d by (simp add: sanitizeFilename_dot)
  next
    case False
    have "\<forall>s \<in> set dirs. vaultSeg s" using assms by simp
    then have "splitOn CHR ''/'' (joinWith ''/'' dirs) = dirs" using False by (intro vault_split)
    then show ?thesis using d False by simp
  qed
  have out: "getOutputPath ext p = joinWith ''/'' (outputSegments ext p)"
    by (rule getOutputPath_segments)
  have 1: "getOutputPath ext p
           = joinWith ''/''
               (segments sitePath
                @ filter (\<lambda>s. s \<noteq> []) (map (sanitizeFilename ext) dirs)
                @ [(if toLowerCase (basenameExt p ''.md'') = ''index'' then ''index''
                    else sanitizeFilename ext (basenameExt p ''.md'')) @ ''.html''])"
    unfolding out by (simp add: outputSegments_def ds outputName_def sitePath_chars(4))
  have 2: "basenameExt p ''.md'' = (if endsWith file ''.md'' then take (length file - 3) file else file)"
    unfolding p_def using basenameExt_vault[OF assms, of "''.md''"] by (simp add: numeral_3_eq_3)
  have "outputSegments ext p
        = ([''obsidian-foursg'', ''site'']
           @ filter (\<lambda>s. s \<noteq> []) (map (sanitizeFilename ext) (splitOn CHR ''/'' (dirname p))))
          @ [outputName ext p @ ''.html'']"
    by (simp add: outputSegments_def)
  moreover have "endsWith (outputName ext p @ ''.html'') ''.html''" by (rule endsWith_append)
  ultimately have 3: "endsWith (getOutputPath ext p) ''.html''"
    unfolding out using joinWith_snoc_endsWith by metis
  show ?thesis using 1 2 3 unfolding p_def by blast
qed

text \<open>
  The document \<open>My Notes/Sub.dir/Hello World!.md\<close> goes to
  \<open>obsidian-foursg/site/my-notes/subdir/hello-world.html\<close>, and \<open>blog/INDEX.md\<close> to
  \<open>obsidian-foursg/site/blog/index.html\<close>.
\<close>

theorem C4_getOutputPath_witness:
  "getOutputPath (\<lambda>c. None) ''My Notes/Sub.dir/Hello World!.md''
     = ''obsidian-foursg/site/my-notes/subdir/hello-world.html'' \<and>
   getOutputPath (\<lambda>c. None) ''blog/INDEX.md'' = ''obsidian-foursg/site/blog/index.html''"
proof -
  have v1: "\<forall>s \<in> set ([''My Notes'', ''Sub.dir''] @ [''Hello World!.md'']). vaultSeg s"
    by (simp add: vaultSeg_def backslash_def)
  have v2: "\<forall>s \<in> set ([''blog''] @ [''INDEX.md'']). vaultSeg s"
    by (simp add: vaultSeg_def backslash_def)
  have s: "sanitizeFilename (\<lambda>c. None) ''My Notes'' = ''my-notes''"
    "sanitizeFilename (\<lambda>c. None) ''Sub.dir'' = ''subdir''"
    "sanitizeFilename (\<lambda>c. None) ''Hello World!'' = ''hello-world''"
    "sanitizeFilename (\<lambda>c. None) ''blog'' = ''blog''"
    "toLowerCase ''Hello World!'' = ''hello world!''"
    "toLowerCase ''INDEX'' = ''index''"
    "segments sitePath = [''obsidian-foursg'', ''site'']"
    by code_simp+
  have e: "endsWith ''Hello World!.md'' ''.md''" "endsWith ''INDEX.md'' ''.md''"
    by (simp_all add: endsWith_def)
  show ?thesis
    using C4_getOutputPath[OF v1, of "\<lambda>c. None"] C4_getOutputPath[OF v2, of "\<lambda>c. None"]
    by (simp add: s e)
qed

section \<open>Claim C5\<close>

lemma stripMd_suffix: "stripMd (s @ ''.md'') = s"
  by (simp add: stripMd_def endsWith_def)

lemma stripMd_other: "\<not> endsWith s ''.md'' \<Longrightarrow> stripMd s = s"
  by (simp add: stripMd_def)

lemma findByPath_find:
  "findByPath c files = List.find (\<lambda>f. path f = c @ ''.md'' \<or> path f = c) files"
  by (induction files) auto

lemma findByBasename_find:
  "findByBasename c files = List.find (\<lambda>f. basename f = c) files"
  by (induction files) auto

text \<open>
  Claim C5: document lookup strips one trailing \<open>.md\<close> from the reference; it returns
  the first document, in the order of the filtered list, whose source path is the
  cleaned reference or the cleaned reference with \<open>.md\<close>; only when there is no such
  document it returns the first document whose base name is the cleaned reference; and
  it returns none exactly when no document matches either way.
\<close>

theorem C5_findTargetFile:
  "(stripMd (s @ ''.md'') = s) \<and>
   (\<not> endsWith linkName ''.md'' \<longrightarrow> stripMd linkName = linkName) \<and>
   (findTargetFile files linkName = Some file \<longleftrightarrow>
      (\<exists>i < length files. files ! i = file \<and>
         ((path file = stripMd linkName @ ''.md'' \<or> path file = stripMd linkName) \<and>
          (\<forall>j < i. path (files ! j) \<noteq> stripMd linkName @ ''.md'' \<and> path (files ! j) \<noteq> stripMd linkName)
          \<or>
          (\<forall>j < length files. path (files ! j) \<noteq> stripMd linkName @ ''.md'' \<and> path (files ! j) \<noteq> stripMd linkName) \<and>
          basename file = stripMd linkName \<and>
          (\<forall>j < i. basename (files ! j) \<noteq> stripMd linkName)))) \<and>
   (findTargetFile files linkName = None \<longleftrightarrow>
      (\<forall>f \<in> set files. path f \<noteq> stripMd linkName @ ''.md'' \<and> path f \<noteq> stripMd linkName \<and>
                        basename f \<noteq> stripMd linkName))"
proof -
  define c where "c = stripMd linkName"
  define P :: "TFile \<Rightarrow> bool" where "P = (\<lambda>f. path f = c @ ''.md'' \<or> path f = c)"
  define Q :: "TFile \<Rightarrow> bool" where "Q = (\<lambda>f. basename f = c)"
  have def: "findTargetFile files linkName =
      (case List.find P files of Some f \<Rightarrow> Some f | None \<Rightarrow> List.find Q files)"
    unfolding c_def P_def Q_def
    by (simp add: findTargetFile_def findByPath_find findByBasename_find Let_def cong: option.case_cong)
  have some: "findTargetFile files linkName = Some file \<longleftrightarrow>
      (\<exists>i < length files. files ! i = file \<and>
         (P file \<and> (\<forall>j < i. \<not> P (files ! j))
          \<or> (\<forall>j < length files. \<not> P (files ! j)) \<and> Q file \<and> (\<forall>j < i. \<not> Q (files ! j))))"
  proof (cases "List.find P files")
    case None
    then have noP: "\<forall>j < length files. \<not> P (files ! j)"
      by (auto simp: find_None_iff)
    have "findTargetFile files linkName = List.find Q files" using None def by simp
    then show ?thesis using noP by (auto simp: find_Some_iff)
  next
    case (Some g)
    then obtain i where i: "i < length files" "P (files ! i)" "g = files ! i" "\<forall>j < i. \<not> P (files ! j)"
      by (auto simp: find_Some_iff)
    have eq: "findTargetFile files linkName = Some g" using Some def by simp
    show ?thesis
    proof
      assume "findTargetFile files linkName = Some file"
      then have "file = g" using eq by simp
      then show "\<exists>i < length files. files ! i = file \<and>
         (P file \<and> (\<forall>j < i. \<not> P (files ! j))
          \<or> (\<forall>j < length files. \<not> P (files ! j)) \<and> Q file \<and> (\<forall>j < i. \<not> Q (files ! j)))"
        using i by blast
    next
      assume "\<exists>i < length files. files ! i = file \<and>
         (P file \<and> (\<forall>j < i. \<not> P (files ! j))
          \<or> (\<forall>j < length files. \<not> P (files ! j)) \<and> Q file \<and> (\<forall>j < i. \<not> Q (files ! j)))"
      then obtain k where k: "k < length files" "files ! k = file"
        "P file \<and> (\<forall>j < k. \<not> P (files ! j))
          \<or> (\<forall>j < length files. \<not> P (files ! j)) \<and> Q file \<and> (\<forall>j < k. \<not> Q (files ! j))"
        by blast
      have first: "P file \<and> (\<forall>j < k. \<not> P (files ! j))" using k(3) i(1,2) by blast
      have "k = i"
      proof (rule ccontr)
        assume "k \<noteq> i"
        then consider "k < i" | "i < k" by linarith
        then show False
        proof cases
          case 1
          then show ?thesis using i(4) first k(2) by blast
        next
          case 2
          then show ?thesis using first i(2) by blast
        qed
      qed
      then show "findTargetFile files linkName = Some file" using eq i(3) k(2) by simp
    qed
  qed
  have none: "findTargetFile files linkName = None \<longleftrightarrow> (\<forall>f \<in> set files. \<not> P f \<and> \<not> Q f)"
    unfolding def by (auto simp: find_None_iff find_Some_iff split: option.splits)
  show ?thesis
    using some none stripMd_suffix[of s] stripMd_other[of linkName]
    unfolding P_def Q_def c_def by simp
qed

text \<open>
  At the documents \<open>blog/index.md\<close>, \<open>index.md\<close> and \<open>notes/index.md\<close>: the reference
  \<open>index.md\<close> is cleaned to \<open>index\<close> and finds the second document by its path, although
  the first has the base name \<open>index\<close>.
\<close>

theorem C5_findTargetFile_witness:
  "findTargetFile
     [\<lparr>path = ''blog/index.md'', name = ''index.md'', basename = ''index''\<rparr>,
      \<lparr>path = ''index.md'', name = ''index.md'', basename = ''index''\<rparr>,
      \<lparr>path = ''notes/index.md'', name = ''index.md'', basename = ''index''\<rparr>]
     ''index.md''
   = Some \<lparr>path = ''index.md'', name = ''index.md'', basename = ''index''\<rparr>
   \<and> stripMd ''index.md'' = ''index''"
proof -
  let ?files = "[\<lparr>path = ''blog/index.md'', name = ''index.md'', basename = ''index''\<rparr>,
      \<lparr>path = ''index.md'', name = ''index.md'', basename = ''index''\<rparr>,
      \<lparr>path = ''notes/index.md'', name = ''index.md'', basename = ''index''\<rparr>]"
  let ?f = "\<lparr>path = ''index.md'', name = ''index.md'', basename = ''index''\<rparr>"
  have s: "stripMd ''index.md'' = ''index''" by (simp add: stripMd_def endsWith_def)
  have "\<exists>i < length ?files. ?files ! i = ?f \<and>
         ((path ?f = stripMd ''index.md'' @ ''.md'' \<or> path ?f = stripMd ''index.md'') \<and>
          (\<forall>j < i. path (?files ! j) \<noteq> stripMd ''index.md'' @ ''.md'' \<and> path (?files ! j) \<noteq> stripMd ''index.md'')
          \<or>
          (\<forall>j < length ?files. path (?files ! j) \<noteq> stripMd ''index.md'' @ ''.md'' \<and> path (?files ! j) \<noteq> stripMd ''index.md'') \<and>
          basename ?f = stripMd ''index.md'' \<and>
          (\<forall>j < i. basename (?files ! j) \<noteq> stripMd ''index.md''))"
    by (rule exI[of _ 1]) (simp add: s)
  then have "findTargetFile ?files ''index.md'' = Some ?f"
    using C5_findTargetFile[of "''index''" "''index.md''" ?files ?f] by blast
  then show ?thesis using s by simp
qed

section \<open>Claim C6\<close>

text \<open>
  Claim C6: the segment-sanitising function is idempotent. For every string \<open>s\<close>,
  sanitising the result of sanitising \<open>s\<close> gives the same string as sanitising \<open>s\<close>
  once. This holds for every character map extension \<open>ext\<close>.
\<close>

theorem C6_sanitizeFilename_idempotent:
  "sanitizeFilename ext (sanitizeFilename ext s) = sanitizeFilename ext s"
proof -
  obtain w where "sanitizeFilename ext s = replaceSpaces ''-'' w"
    and "\<forall>c \<in> set w. slugChar c \<or> isSpace c"
    and "w = [] \<or> (\<not> isSpace (hd w) \<and> \<not> isSpace (last w))"
    using sanitizeFilename_form by blast
  then show ?thesis by (simp add: sanitizeFilename_fixed)
qed

section \<open>Claim C7\<close>



section \<open>Claim C8\<close>

text \<open>
  Claim C8 at an entry whose date holds characters that XML reserves. A generator for
  \<open>https://example.com/\<close> is given the one entry with location \<open>a<b.html\<close>, date
  \<open><2024&05>\<close>, change frequency weekly and priority one half. \<open>toXml\<close> writes the
  location with the base URL before it and escaped, and the priority with one decimal
  place, but the date as it is: the text holds \<open><lastmod><2024&05></lastmod>\<close>, where the
  escaped date is \<open>&lt;2024&amp;05&gt;\<close>. Of the values of an entry, \<open>generateUrlEntry\<close>
  passes the location alone through \<open>escapeXml\<close>.
\<close>

theorem C8_toXml_lastmod_not_escaped:
  "toXml numberToString
     (addUrl (newSitemapGenerator ''https://example.com/'')
        \<lparr>loc = ''a<b.html'', lastmod = Some ''<2024&05>'', changefreq = Some Weekly,
         priority = Some (1 / 2)\<rparr>)
   = xmlPrologue
     @ ''  <url>'' @ newline
     @ ''    <loc>https://example.com/a&lt;b.html</loc>'' @ newline
     @ ''    <lastmod><2024&05></lastmod>'' @ newline
     @ ''    <changefreq>weekly</changefreq>'' @ newline
     @ ''    <priority>0.5</priority>'' @ newline
     @ ''  </url>'' @ newline
     @ ''</urlset>'' \<and>
   escapeXml ''<2024&05>'' = ''&lt;2024&amp;05&gt;'' \<and>
   escapeXml ''<2024&05>'' \<noteq> ''<2024&05>''"
proof -
  have p: "toFixed1 numberToString (1 / 2) = ''0.5''"
  proof -
    have "\<not> \<bar>1 / 2 :: rat\<bar> \<ge> 10 ^ 21" by simp
    moreover have "\<lfloor>11 / 2 :: rat\<rfloor> = 5" by (rule floor_unique) simp_all
    then have "nat \<lfloor>\<bar>1 / 2 :: rat\<bar> * 10 + 1 / 2\<rfloor> = 5" by simp
    moreover have "showNat 0 = ''0''" "digitChar 5 = CHR ''5''"
      by code_simp+
    ultimately show ?thesis by (simp add: toFixed1_def)
  qed
  have e: "escapeXml ''https://example.com/a<b.html'' = ''https://example.com/a&lt;b.html''"
    "escapeXml ''<2024&05>'' = ''&lt;2024&amp;05&gt;''"
    by (simp_all add: escapeXml_def escapeChar_def)
  have g: "generateUrlEntry numberToString ''https://example.com''
             \<lparr>loc = ''a<b.html'', lastmod = Some ''<2024&05>'', changefreq = Some Weekly,
              priority = Some (1 / 2)\<rparr>
           = ''  <url>'' @ newline
             @ ''    <loc>https://example.com/a&lt;b.html</loc>'' @ newline
             @ ''    <lastmod><2024&05></lastmod>'' @ newline
             @ ''    <changefreq>weekly</changefreq>'' @ newline
             @ ''    <priority>0.5</priority>'' @ newline
             @ ''  </url>''"
    by (simp add: generateUrlEntry_def Let_def startsWith_def p e)
  have "toXml numberToString
     (addUrl (newSitemapGenerator ''https://example.com/'')
        \<lparr>loc = ''a<b.html'', lastmod = Some ''<2024&05>'', changefreq = Some Weekly,
         priority = Some (1 / 2)\<rparr>)
   = xmlPrologue
     @ generateUrlEntry numberToString ''https://example.com''
             \<lparr>loc = ''a<b.html'', lastmod = Some ''<2024&05>'', changefreq = Some Weekly,
              priority = Some (1 / 2)\<rparr>
     @ newline @ ''</urlset>''"
    by (simp add: toXml_def addUrl_def newSitemapGenerator_def)
  then show ?thesis unfolding g using e(2) by simp
qed
section \<open>Claim C9\<close>

















section \<open>Claim C10\<close>

text \<open>
  Claim C10: for a document that is not an index and whose base name sanitises to the
  empty string, as \<open>!!!\<close> does, the file name of the output path is exactly \<open>.html\<close>;
  so two such documents in the same source directory get the same output path.
\<close>

theorem C10_empty_name_collision:
  assumes "sanitizeFilename ext (basenameExt p ''.md'') = []"
    and "toLowerCase (basenameExt p ''.md'') \<noteq> ''index''"
  shows "basenameExt (getOutputPath ext p) [] = ''.html'' \<and>
         (\<forall>q. sanitizeFilename ext (basenameExt q ''.md'') = [] \<and>
              toLowerCase (basenameExt q ''.md'') \<noteq> ''index'' \<and>
              dirname q = dirname p \<longrightarrow>
              getOutputPath ext q = getOutputPath ext p) \<and>
         sanitizeFilename ext ''!!!'' = []"
proof -
  have n: "outputName ext p = []" using assms by (simp add: outputName_def)
  define ds where
    "ds = [''obsidian-foursg'', ''site'']
          @ filter (\<lambda>s. s \<noteq> []) (map (sanitizeFilename ext) (splitOn CHR ''/'' (dirname p)))"
  have segs: "outputSegments ext p = ds @ [''.html'']"
    by (simp add: outputSegments_def n ds_def)
  have "\<forall>s \<in> set (outputSegments ext p). vaultSeg s"
    using outputSegments_clean cleanSeg_vaultSeg by blast
  then have v: "\<forall>s \<in> set (ds @ [''.html'']). vaultSeg s" by (simp only: segs)
  have "basenameExt (joinWith ''/'' (ds @ [''.html''])) [] = ''.html''"
    using basenameExt_vault[OF v, of "[]"] by simp
  then have 1: "basenameExt (getOutputPath ext p) [] = ''.html''"
    by (simp only: getOutputPath_segments segs)
  have 2: "\<forall>q. sanitizeFilename ext (basenameExt q ''.md'') = [] \<and>
              toLowerCase (basenameExt q ''.md'') \<noteq> ''index'' \<and>
              dirname q = dirname p \<longrightarrow>
              getOutputPath ext q = getOutputPath ext p"
  proof (intro allI impI)
    fix q
    assume q: "sanitizeFilename ext (basenameExt q ''.md'') = [] \<and>
              toLowerCase (basenameExt q ''.md'') \<noteq> ''index'' \<and>
              dirname q = dirname p"
    then have "outputName ext q = []" by (simp add: outputName_def)
    then have "outputSegments ext q = outputSegments ext p"
      using q n by (simp add: outputSegments_def)
    then show "getOutputPath ext q = getOutputPath ext p"
      by (simp only: getOutputPath_segments)
  qed
  have 3: "sanitizeFilename ext ''!!!'' = []"
    by (simp add: sanitizeFilename_def slugify_def slugifyChar_def charMap_def charMapAscii_def
        isRemoved_def trim_def toLowerCase_def Let_def)
  show ?thesis using 1 2 3 by blast
qed

text \<open>
  The documents \<open>notes/!!!.md\<close> and \<open>notes/(@).md\<close> both go to
  \<open>obsidian-foursg/site/notes/.html\<close>.
\<close>

theorem C10_empty_name_collision_witness:
  "getOutputPath (\<lambda>c. None) ''notes/!!!.md'' = ''obsidian-foursg/site/notes/.html'' \<and>
   getOutputPath (\<lambda>c. None) ''notes/(@).md'' = getOutputPath (\<lambda>c. None) ''notes/!!!.md'' \<and>
   basenameExt (getOutputPath (\<lambda>c. None) ''notes/!!!.md'') [] = ''.html''"
proof -
  have a: "sanitizeFilename (\<lambda>c. None) (basenameExt ''notes/!!!.md'' ''.md'') = []"
    "toLowerCase (basenameExt ''notes/!!!.md'' ''.md'') \<noteq> ''index''"
    "sanitizeFilename (\<lambda>c. None) (basenameExt ''notes/(@).md'' ''.md'') = []"
    "toLowerCase (basenameExt ''notes/(@).md'' ''.md'') \<noteq> ''index''"
    "dirname ''notes/(@).md'' = dirname ''notes/!!!.md''"
    by code_simp+
  have v: "getOutputPath (\<lambda>c. None) ''notes/!!!.md'' = ''obsidian-foursg/site/notes/.html''"
    by code_simp
  show ?thesis
    using C10_empty_name_collision[OF a(1,2)] a(3,4,5) v by metis
qed

end
